theory Spec2Isabelle
  imports Complex_Main "HOL-Library.List_Lexorder" "HOL-Library.Char_ord" "HOL-Library.AList"
begin

section \<open>Decimal strings of Python integers\<close>

text \<open>
  \<^verbatim>\<open>str(n)\<close> of a Python integer: the decimal digits, most significant first, no padding,
  with a leading minus sign for a negative number. Strings are compared byte by byte
  (the lexicographic order on \<^typ>\<open>char list\<close>), a proper prefix being smaller.
\<close>

definition digit_char :: "nat \<Rightarrow> char" where
  "digit_char d = char_of (48 + d)"

function str_nat :: "nat \<Rightarrow> string" where
  "str_nat n = (if n < 10 then [digit_char n] else str_nat (n div 10) @ [digit_char (n mod 10)])"
  by pat_completeness auto
termination
  by (relation "measure (\<lambda>n. n)") auto

declare str_nat.simps [simp del]

definition str :: "int \<Rightarrow> string" where
  "str i = (if i < 0 then CHR ''-'' # str_nat (nat (- i)) else str_nat (nat i))"

section \<open>Errors\<close>

text \<open>
  The exceptions that the modelled handlers can meet: \<^verbatim>\<open>ValueError\<close> from
  \<^verbatim>\<open>datetime.datetime.fromtimestamp\<close>, \<^verbatim>\<open>BadValueError\<close> from decoding a cursor,
  \<^verbatim>\<open>AppHelperException\<close> (with its message) from the upload helper, and a failure of
  \<^verbatim>\<open>taskqueue.add\<close>.
\<close>

datatype error = ValueError | BadValueError | AppHelperException string | TaskQueueError

section \<open>The Datastore models\<close>

record LoggedService =
  hosts :: "string list"

record AppLogLine =
  message :: string
  level :: int
  timestamp :: int

record RequestLogLine =
  service_name :: string
  host :: string
  app_logs :: "AppLogLine list"

text \<open>
  The Datastore holds one \<^verbatim>\<open>LoggedService\<close> per service name and the \<^verbatim>\<open>RequestLogLine\<close>
  entities under their key names. The log entities are kept as an association list, since
  queries enumerate them; \<^verbatim>\<open>get_by_id\<close> is \<^const>\<open>map_of\<close> and \<^verbatim>\<open>put\<close> replaces the
  entity stored under the key or adds a new one.
\<close>

type_synonym log_table = "(string \<times> RequestLogLine) list"

record datastore =
  services :: "string \<rightharpoonup> LoggedService"
  request_logs :: log_table

definition put :: "string \<Rightarrow> RequestLogLine \<Rightarrow> log_table \<Rightarrow> log_table" where
  "put k e tbl = AList.update k e tbl"

definition empty_datastore :: datastore where
  "empty_datastore = \<lparr>services = Map.empty, request_logs = []\<rparr>"

section \<open>The reversed-time key of \<^verbatim>\<open>LogUploadPage.post\<close>\<close>

text \<open>
  \<^verbatim>\<open>reversed_time = (2**34 - the_time) * 1000000\<close> and
  \<^verbatim>\<open>key_name = service_name + host + str(reversed_time)\<close>.
\<close>

definition reversed_time :: "int \<Rightarrow> int" where
  "reversed_time the_time = (2 ^ 34 - the_time) * 1000000"

definition encode :: "int \<Rightarrow> string" where
  "encode the_time = str (reversed_time the_time)"

definition key_name :: "string \<Rightarrow> string \<Rightarrow> int \<Rightarrow> string" where
  "key_name svc hst the_time = svc @ hst @ str (reversed_time the_time)"

text \<open>
  The timestamps whose reversed time has eleven digits before the six zeros of the scale
  factor, so that the encoded string has seventeen characters:
  \<open>2\<^sup>3\<^sup>4 - 10\<^sup>1\<^sup>1 < t \<le> 2\<^sup>3\<^sup>4 - 10\<^sup>1\<^sup>0\<close>, which contains every epoch second from 0 to
  7179869184.
\<close>

definition in_window :: "int \<Rightarrow> bool" where
  "in_window t = (2 ^ 34 - 10 ^ 11 < t \<and> t \<le> 2 ^ 34 - 10 ^ 10)"

text \<open>
  The window that the specification describes: the subtraction does not go negative and
  the encoded string does not exceed the fixed width of seventeen characters.
\<close>

definition spec_window :: "int \<Rightarrow> bool" where
  "spec_window t = (0 \<le> reversed_time t \<and> length (encode t) \<le> 17)"

section \<open>\<^verbatim>\<open>LogUploadPage.post\<close>\<close>

text \<open>
  One element of the \<^verbatim>\<open>logs\<close> list of the decoded JSON body. The timestamp is a JSON
  number, an integer or a fraction of a second; \<^verbatim>\<open>int(...)\<close> truncates it toward zero.
\<close>

datatype log_line_dict = LogLineDict (dict_timestamp: rat) (dict_message: string) (dict_level: int)

record upload =
  upload_service_name :: string
  upload_host :: string
  upload_logs :: "log_line_dict list"

definition py_int :: "rat \<Rightarrow> int" where
  "py_int q = (if 0 \<le> q then \<lfloor>q\<rfloor> else \<lceil>q\<rceil>)"

text \<open>
  \<^verbatim>\<open>datetime.datetime.fromtimestamp(the_time)\<close> raises \<^verbatim>\<open>ValueError\<close> when the year of
  the result is outside 1..9999; the bounds are those of a host whose local time is UTC.
  The datetime is kept as its epoch second.
\<close>

definition in_datetime_range :: "int \<Rightarrow> bool" where
  "in_datetime_range t = (- 62135596800 \<le> t \<and> t \<le> 253402300799)"

definition datetime_fromtimestamp :: "int \<Rightarrow> error + int" where
  "datetime_fromtimestamp the_time =
     (if in_datetime_range the_time then Inr the_time else Inl ValueError)"

definition register_host ::
  "string \<Rightarrow> string \<Rightarrow> (string \<rightharpoonup> LoggedService) \<Rightarrow> (string \<rightharpoonup> LoggedService)" where
  "register_host svc hst svcs =
     (case svcs svc of
        None \<Rightarrow> svcs(svc \<mapsto> \<lparr>hosts = [hst]\<rparr>)
      | Some service \<Rightarrow>
          if hst \<notin> set (hosts service)
          then svcs(svc \<mapsto> service\<lparr>hosts := hosts service @ [hst]\<rparr>)
          else svcs)"

definition add_log_line :: "string \<Rightarrow> string \<Rightarrow> log_line_dict \<Rightarrow> log_table \<Rightarrow> error + log_table" where
  "add_log_line svc hst log_line_dict tbl =
     (let the_time = py_int (dict_timestamp log_line_dict);
          key = key_name svc hst the_time;
          log_line = (case map_of tbl key of
                        None \<Rightarrow> \<lparr>service_name = svc, host = hst, app_logs = []\<rparr>
                      | Some e \<Rightarrow> e)
      in case datetime_fromtimestamp the_time of
           Inl err \<Rightarrow> Inl err
         | Inr ts \<Rightarrow>
             Inr (put key
                    (log_line\<lparr>app_logs := app_logs log_line @
                       [\<lparr>message = dict_message log_line_dict, level = dict_level log_line_dict,
                         timestamp = ts\<rparr>]\<rparr>)
                    tbl))"

text \<open>
  The loop over the log lines: an exception leaves the handler, and the entities put by
  the earlier iterations stay in the Datastore.
\<close>

fun add_log_lines :: "string \<Rightarrow> string \<Rightarrow> log_line_dict list \<Rightarrow> log_table \<Rightarrow> error option \<times> log_table" where
  "add_log_lines svc hst [] tbl = (None, tbl)"
| "add_log_lines svc hst (d # ds) tbl =
     (case add_log_line svc hst d tbl of
        Inl err \<Rightarrow> (Some err, tbl)
      | Inr tbl' \<Rightarrow> add_log_lines svc hst ds tbl')"

definition LogUploadPage_post :: "upload \<Rightarrow> datastore \<Rightarrow> error option \<times> datastore" where
  "LogUploadPage_post data ds =
     (let svc = upload_service_name data;
          hst = upload_host data;
          svcs = register_host svc hst (services ds);
          (err, tbl) = add_log_lines svc hst (upload_logs data) (request_logs ds)
      in (err, \<lparr>services = svcs, request_logs = tbl\<rparr>))"

section \<open>\<^verbatim>\<open>LogServiceHostPage.get\<close>\<close>

text \<open>
  Modelled from the spec: \<^verbatim>\<open>fetch_page\<close> and the cursor class of the Datastore library are
  not among the sources. The specification's \<^verbatim>\<open>QueryPage\<close> returns up to \<^verbatim>\<open>page_size\<close>
  records that satisfy the filter, ordered by the record key ascending, starting strictly
  after the position that the cursor encodes; the next cursor is absent when there are no
  further pages, and \<^verbatim>\<open>has_more\<close> tells whether there are. A cursor is the key of the
  last record returned. Its URL-safe form is opaque: here the key behind a marker
  character, so that every key round-trips and a string without the marker does not decode.
\<close>

type_synonym cursor = string

definition urlsafe :: "cursor \<Rightarrow> string" where
  "urlsafe c = CHR ''C'' # c"

fun Cursor_urlsafe :: "string \<Rightarrow> error + cursor" where
  "Cursor_urlsafe [] = Inl BadValueError"
| "Cursor_urlsafe (x # c) = (if x = CHR ''C'' then Inr c else Inl BadValueError)"

definition fetch_page ::
  "nat \<Rightarrow> cursor option \<Rightarrow> (RequestLogLine \<Rightarrow> bool) \<Rightarrow> log_table \<Rightarrow>
   (string \<times> RequestLogLine) list \<times> cursor option \<times> bool" where
  "fetch_page page_size start_cursor flt tbl =
     (let ordered = sort_key fst (filter (\<lambda>(k, e). flt e) tbl);
          rest = (case start_cursor of
                    None \<Rightarrow> ordered
                  | Some c \<Rightarrow> filter (\<lambda>(k, e). c < k) ordered);
          page = take page_size rest;
          more = (page_size < length rest)
      in (page, (if more \<and> page \<noteq> [] then Some (fst (last page)) else None), more))"

definition LOGS_PER_PAGE :: nat where
  "LOGS_PER_PAGE = 20"

record log_request =
  is_cloud_admin :: bool
  apps_user_is_admin_on :: "string list"
  next_cursor_param :: string

text \<open>
  The values handed to the template, and whether the handler called \<^verbatim>\<open>redirect\<close> first
  (the call does not end the handler). Each returned entity is paired with its key name.
\<close>

record log_page =
  redirected :: bool
  page_service_name :: string
  page_host :: string
  query :: "(string \<times> RequestLogLine) list"
  next_cursor :: "string option"
  is_more :: bool

definition LogServiceHostPage_get ::
  "log_request \<Rightarrow> string \<Rightarrow> string \<Rightarrow> datastore \<Rightarrow> error + log_page" where
  "LogServiceHostPage_get req svc hst ds =
     (let redirect = (\<not> is_cloud_admin req \<and> svc \<notin> set (apps_user_is_admin_on req));
          encoded_cursor = next_cursor_param req;
          decoded = (if encoded_cursor \<noteq> [] \<and> encoded_cursor \<noteq> ''None''
                     then (case Cursor_urlsafe encoded_cursor of
                             Inl err \<Rightarrow> Inl err
                           | Inr c \<Rightarrow> Inr (Some c))
                     else Inr None)
      in case decoded of
           Inl err \<Rightarrow> Inl err
         | Inr start_cursor \<Rightarrow>
             (let (results, next, more) =
                    (if hst = ''all''
                     then fetch_page LOGS_PER_PAGE start_cursor
                            (\<lambda>e. service_name e = svc) (request_logs ds)
                     else fetch_page LOGS_PER_PAGE start_cursor
                            (\<lambda>e. service_name e = svc \<and> host e = hst) (request_logs ds));
                  cursor_value = (case next of Some c \<Rightarrow> Some (urlsafe c) | None \<Rightarrow> None)
              in Inr \<lparr>redirected = redirect, page_service_name = svc, page_host = hst,
                       query = results, next_cursor = cursor_value, is_more = more\<rparr>))"

text \<open>
  An exception that leaves a handler reaches \<^verbatim>\<open>handle_500\<close>, which answers with status
  500 and the error page.
\<close>

datatype 'a http_response = Rendered 'a | Status500

definition dispatch :: "error + 'a \<Rightarrow> 'a http_response" where
  "dispatch r = (case r of Inl err \<Rightarrow> Status500 | Inr page \<Rightarrow> Rendered page)"

text \<open>
  A viewer that follows the pages: the cursor of a page goes into the \<^verbatim>\<open>next_cursor\<close>
  parameter of the next request (an absent cursor is rendered as the text \<^verbatim>\<open>None\<close>), until
  \<^verbatim>\<open>is_more\<close> is false. The fuel bounds the number of requests; \<open>None\<close> is a run that did
  not end within it, or that met an error.
\<close>

definition cursor_link :: "string option \<Rightarrow> string" where
  "cursor_link c = (case c of None \<Rightarrow> ''None'' | Some u \<Rightarrow> u)"

fun paginate ::
  "nat \<Rightarrow> log_request \<Rightarrow> string \<Rightarrow> string \<Rightarrow> datastore \<Rightarrow> (string \<times> RequestLogLine) list option" where
  "paginate 0 req svc hst ds = None"
| "paginate (Suc fuel) req svc hst ds =
     (case LogServiceHostPage_get req svc hst ds of
        Inl err \<Rightarrow> None
      | Inr page \<Rightarrow>
          if is_more page
          then (case paginate fuel (req\<lparr>next_cursor_param := cursor_link (next_cursor page)\<rparr>) svc hst ds of
                  None \<Rightarrow> None
                | Some rest \<Rightarrow> Some (query page @ rest))
          else Some (query page))"

text \<open>The records that a (service, host) filter selects, in the order of the store.\<close>

definition matching :: "string \<Rightarrow> string \<Rightarrow> log_table \<Rightarrow> log_table" where
  "matching svc hst tbl =
     (if hst = ''all'' then filter (\<lambda>(k, e). service_name e = svc) tbl
      else filter (\<lambda>(k, e). service_name e = svc \<and> host e = hst) tbl)"

section \<open>The task queue and the refresh triggers\<close>

text \<open>
  A task is a URL and a countdown (0 when none is given). \<^verbatim>\<open>taskqueue.add\<close> appends the
  task or raises; \<open>faults\<close> lists the outcomes of the coming calls (\<open>True\<close>: the call
  raises), and a call beyond the list succeeds.
\<close>

record task =
  url :: string
  countdown :: nat

record taskqueue =
  tasks :: "task list"
  faults :: "bool list"

definition taskqueue_add :: "task \<Rightarrow> taskqueue \<Rightarrow> error option \<times> taskqueue" where
  "taskqueue_add t q =
     (case faults q of
        [] \<Rightarrow> (None, q\<lparr>tasks := tasks q @ [t]\<rparr>)
      | f # fs \<Rightarrow>
          if f then (Some TaskQueueError, q\<lparr>faults := fs\<rparr>)
          else (None, q\<lparr>tasks := tasks q @ [t], faults := fs\<rparr>))"

definition REFRESH_WAIT_TIME :: nat where
  "REFRESH_WAIT_TIME = 10"

text \<open>
  The two calls under one \<^verbatim>\<open>try\<close>: a failure of either is logged and ends the block; the
  queue keeps what was added before.
\<close>

definition enqueue_refresh :: "taskqueue \<Rightarrow> taskqueue" where
  "enqueue_refresh q =
     (case taskqueue_add \<lparr>url = ''/status/refresh'', countdown = 0\<rparr> q of
        (Some err, q1) \<Rightarrow> q1
      | (None, q1) \<Rightarrow>
          snd (taskqueue_add \<lparr>url = ''/status/refresh'', countdown = REFRESH_WAIT_TIME\<rparr> q1))"

text \<open>
  \<^verbatim>\<open>AppUploadPage.post\<close>: whether the form carries a file, whether the user may upload, and
  what \<^verbatim>\<open>upload_app\<close> does (it returns a message or raises \<^verbatim>\<open>AppHelperException\<close>; another
  exception leaves the handler). The result is the pair of messages given to the template.
\<close>

record upload_request =
  has_app_file :: bool
  can_upload_apps :: bool
  upload_app :: "error + string"

record upload_page =
  error_message :: string
  success_message :: string

definition AppUploadPage_post :: "upload_request \<Rightarrow> taskqueue \<Rightarrow> (error + upload_page) \<times> taskqueue" where
  "AppUploadPage_post req q =
     (if \<not> has_app_file req
      then (Inr \<lparr>error_message = ''You must specify a file to upload.'', success_message = []\<rparr>, q)
      else if can_upload_apps req
      then (case upload_app req of
              Inr success_msg \<Rightarrow>
                (Inr \<lparr>error_message = [], success_message = success_msg\<rparr>,
                 if success_msg \<noteq> [] then enqueue_refresh q else q)
            | Inl (AppHelperException msg) \<Rightarrow>
                (Inr \<lparr>error_message = msg, success_message = []\<rparr>, q)
            | Inl err \<Rightarrow> (Inl err, q))
      else (Inr \<lparr>error_message = ''You are not authorized to upload apps.'', success_message = []\<rparr>, q))"

text \<open>
  \<^verbatim>\<open>AppDeletePage.post\<close>: \<^verbatim>\<open>delete_app\<close> answers with a message, whatever the outcome, and
  the refresh is requested after it.
\<close>

record delete_request =
  delete_is_cloud_admin :: bool
  owned_apps :: "string list"
  appname :: string
  delete_app :: string

definition AppDeletePage_post :: "delete_request \<Rightarrow> taskqueue \<Rightarrow> string \<times> taskqueue" where
  "AppDeletePage_post req q =
     (if delete_is_cloud_admin req \<or> appname req \<in> set (owned_apps req)
      then (delete_app req, enqueue_refresh q)
      else (''You do not have permission to delete the application: '' @ appname req, q))"

text \<open>
  \<^verbatim>\<open>StatusRefreshPage\<close>: each request, GET or POST, calls \<^verbatim>\<open>update_all\<close> and answers
  \<^verbatim>\<open>datastore updated\<close>. The handler keeps no state of its own, so the refresher is
  described by the number of calls of \<^verbatim>\<open>update_all\<close> begun and the number of them still
  running; a request begins one, and its end is a separate event, so that requests may
  overlap.
\<close>

record refresher =
  cycles :: nat
  in_flight :: nat

datatype refresh_event = Trigger | Finish

fun refresh_step :: "refresher \<Rightarrow> refresh_event \<Rightarrow> refresher" where
  "refresh_step r Trigger = r\<lparr>cycles := cycles r + 1, in_flight := in_flight r + 1\<rparr>"
| "refresh_step r Finish = r\<lparr>in_flight := in_flight r - 1\<rparr>"

definition refresh_run :: "refresher \<Rightarrow> refresh_event list \<Rightarrow> refresher" where
  "refresh_run r evs = foldl refresh_step r evs"

section \<open>Reading the store\<close>

text \<open>
  \<^verbatim>\<open>LogServicePage.get\<close> lists the hosts of a service: those of its \<^verbatim>\<open>LoggedService\<close>, or
  none when the service is not registered.
\<close>

definition ListHosts :: "string \<Rightarrow> (string \<rightharpoonup> LoggedService) \<Rightarrow> string list" where
  "ListHosts svc svcs = (case svcs svc of None \<Rightarrow> [] | Some service \<Rightarrow> hosts service)"

text \<open>
  The log lines stored under a key name (none when there is no entity), the number of
  entities stored under it, the log line that an uploaded entry becomes, and the upload
  of a single entry.
\<close>

definition stored_logs :: "string \<Rightarrow> log_table \<Rightarrow> AppLogLine list" where
  "stored_logs k tbl = (case map_of tbl k of None \<Rightarrow> [] | Some e \<Rightarrow> app_logs e)"

definition records_under :: "string \<Rightarrow> log_table \<Rightarrow> nat" where
  "records_under k tbl = length (filter (\<lambda>(k', e). k' = k) tbl)"

definition new_entry :: "log_line_dict \<Rightarrow> AppLogLine" where
  "new_entry d =
     \<lparr>message = dict_message d, level = dict_level d, timestamp = py_int (dict_timestamp d)\<rparr>"

definition upload_one :: "string \<Rightarrow> string \<Rightarrow> log_line_dict \<Rightarrow> datastore \<Rightarrow> datastore" where
  "upload_one svc hst d ds =
     snd (LogUploadPage_post \<lparr>upload_service_name = svc, upload_host = hst, upload_logs = [d]\<rparr> ds)"

text \<open>
  The listing of a (service, host) filter: the selected records in ascending order of
  their key names.
\<close>

definition listing :: "string \<Rightarrow> string \<Rightarrow> datastore \<Rightarrow> log_table" where
  "listing svc hst ds = sort_key fst (matching svc hst (request_logs ds))"

text \<open>
  A store after two uploads for service \<open>s\<close>: host \<open>a\<close> at second 1000, then host \<open>b\<close> at
  second 2000.
\<close>

definition two_hosts :: datastore where
  "two_hosts = upload_one ''s'' ''b'' (LogLineDict 2000 ''new'' 1)
                 (upload_one ''s'' ''a'' (LogLineDict 1000 ''old'' 1) empty_datastore)"

text \<open>
  The time of a record is the timestamp of its first log line. A record is keyed by its
  time when its key name is the key of its own service, host and time, the time lies in
  the window of seventeen-character encodings, and all its log lines carry that time;
  this is how the upload handler stores every record whose timestamps are of the window.
  One record is newer than another when its time is the later one.
\<close>

definition record_time :: "RequestLogLine \<Rightarrow> int option" where
  "record_time e = (case app_logs e of [] \<Rightarrow> None | l # ls \<Rightarrow> Some (timestamp l))"

definition keyed_by_time :: "string \<times> RequestLogLine \<Rightarrow> bool" where
  "keyed_by_time p =
     (case record_time (snd p) of
        None \<Rightarrow> False
      | Some t \<Rightarrow>
          in_window t \<and> fst p = key_name (service_name (snd p)) (host (snd p)) t \<and>
          list_all (\<lambda>l. timestamp l = t) (app_logs (snd p)))"

definition newer :: "string \<times> RequestLogLine \<Rightarrow> string \<times> RequestLogLine \<Rightarrow> bool" where
  "newer x y =
     (case record_time (snd x) of
        None \<Rightarrow> False
      | Some t \<Rightarrow> (case record_time (snd y) of None \<Rightarrow> False | Some u \<Rightarrow> u < t))"

text \<open>
  The record that the upload of one entry creates under a key not yet in the store, and a
  store after twenty-one uploads for service \<open>s\<close> and host \<open>a\<close>, one for each second from
  1000 to 1020: one more record than a page holds.
\<close>

definition uploaded_record :: "string \<Rightarrow> string \<Rightarrow> string \<Rightarrow> int \<Rightarrow> int \<Rightarrow> string \<times> RequestLogLine" where
  "uploaded_record svc hst m lv t =
     (key_name svc hst t,
      \<lparr>service_name = svc, host = hst, app_logs = [\<lparr>message = m, level = lv, timestamp = t\<rparr>]\<rparr>)"

definition busy_host :: datastore where
  "busy_host =
     fold (\<lambda>t. upload_one ''s'' ''a'' (LogLineDict (of_int t) ''m'' 1)) [1000..1020] empty_datastore"

section \<open>Decimal strings: width and order\<close>

lemma str_nat_small: "n < 10 \<Longrightarrow> str_nat n = [digit_char n]"
  by (simp add: str_nat.simps)

lemma str_nat_big: "\<not> n < 10 \<Longrightarrow> str_nat n = str_nat (n div 10) @ [digit_char (n mod 10)]"
  by (subst str_nat.simps) simp

lemma digit_char_less: "d < e \<Longrightarrow> e < 10 \<Longrightarrow> digit_char d < digit_char e"
  by (simp add: digit_char_def less_char_def)

lemma str_nat_nonempty: "str_nat n \<noteq> []"
  by (subst str_nat.simps) simp

lemma length_str_nat_pos: "0 < length (str_nat n)"
  by (simp add: str_nat_nonempty)

lemma length_str_nat_big: "\<not> n < 10 \<Longrightarrow> length (str_nat n) = Suc (length (str_nat (n div 10)))"
proof -
  assume "\<not> n < 10"
  then have "length (str_nat n) = length (str_nat (n div 10) @ [digit_char (n mod 10)])"
    by (rule str_nat_big [THEN arg_cong])
  then show ?thesis by simp
qed

lemma list_less_append_same_length:
  fixes xs ys :: "'a::order list"
  shows "xs < ys \<Longrightarrow> length xs = length ys \<Longrightarrow> xs @ us < ys @ vs"
  unfolding list_less_def by (rule lexord_sufI) simp_all

lemma list_less_append_left: 
  fixes us vs :: "'a::order list"
  shows "us < vs \<Longrightarrow> xs @ us < xs @ vs"
  unfolding list_less_def by (rule lexord_append_leftI)

lemma str_nat_less:
  "a < b \<Longrightarrow> length (str_nat a) = length (str_nat b) \<Longrightarrow> str_nat a < str_nat b"
proof (induction a arbitrary: b rule: str_nat.induct)
  case (1 a)
  show ?case
  proof (cases "a < 10")
    case True
    have lb: "length (str_nat b) = 1"
      using "1.prems"(2) str_nat_small [OF True] by simp
    have b10: "b < 10"
    proof (rule ccontr)
      assume nb: "\<not> b < 10"
      from length_str_nat_big [OF nb] length_str_nat_pos [of "b div 10"] lb
      show False by simp
    qed
    from "1.prems"(1) b10 have "digit_char a < digit_char b" by (rule digit_char_less)
    then show ?thesis
      by (simp add: str_nat_small [OF True] str_nat_small [OF b10])
  next
    case False
    with "1.prems"(1) have bb: "\<not> b < 10" by simp
    from "1.prems"(2) have len: "length (str_nat (a div 10)) = length (str_nat (b div 10))"
      by (simp only: length_str_nat_big [OF False] length_str_nat_big [OF bb] nat.inject)
    from "1.prems"(1) have "a div 10 \<le> b div 10" by (rule less_imp_le [THEN div_le_mono])
    then consider (lt) "a div 10 < b div 10" | (eq) "a div 10 = b div 10" by linarith
    then show ?thesis
    proof cases
      case lt
      from "1.IH" [OF False lt len] have "str_nat (a div 10) < str_nat (b div 10)" .
      then have "str_nat (a div 10) @ [digit_char (a mod 10)] < str_nat (b div 10) @ [digit_char (b mod 10)]"
        using len by (rule list_less_append_same_length)
      then show ?thesis by (simp only: str_nat_big [OF False] str_nat_big [OF bb])
    next
      case eq
      have "a = 10 * (a div 10) + a mod 10" "b = 10 * (b div 10) + b mod 10" by simp_all
      with "1.prems"(1) eq have "a mod 10 < b mod 10" by linarith
      then have "digit_char (a mod 10) < digit_char (b mod 10)"
        by (rule digit_char_less) simp
      then have "[digit_char (a mod 10)] < [digit_char (b mod 10)]" by simp
      then have "str_nat (b div 10) @ [digit_char (a mod 10)] < str_nat (b div 10) @ [digit_char (b mod 10)]"
        by (rule list_less_append_left)
      then show ?thesis by (simp only: str_nat_big [OF False] str_nat_big [OF bb] eq)
    qed
  qed
qed

lemma length_str_nat_lower: "10 ^ k \<le> n \<Longrightarrow> Suc k \<le> length (str_nat n)"
proof (induction k arbitrary: n)
  case 0
  show ?case by (simp add: Suc_le_eq str_nat_nonempty)
next
  case (Suc k)
  have "(1::nat) \<le> 10 ^ k" by simp
  then have "(10::nat) \<le> 10 * 10 ^ k" by simp
  moreover from Suc.prems have "10 * 10 ^ k \<le> n" by simp
  ultimately have big: "\<not> n < 10" by linarith
  from Suc.prems have "10 ^ k \<le> n div 10" by (simp add: less_eq_div_iff_mult_less_eq mult.commute)
  from Suc.IH [OF this] show ?case by (simp only: length_str_nat_big [OF big] Suc_le_mono)
qed


lemma length_str_nat_upper: "n < 10 ^ Suc k \<Longrightarrow> length (str_nat n) \<le> Suc k"
proof (induction k arbitrary: n)
  case 0
  then show ?case by (simp add: str_nat_small)
next
  case (Suc k)
  show ?case
  proof (cases "n < 10")
    case True
    then show ?thesis by (simp add: str_nat_small)
  next
    case False
    from Suc.prems have "n div 10 < 10 ^ Suc k" by (simp add: less_mult_imp_div_less mult.commute)
    from Suc.IH [OF this] show ?thesis by (simp only: length_str_nat_big [OF False] Suc_le_mono)
  qed
qed

lemma length_str_nat: "10 ^ k \<le> n \<Longrightarrow> n < 10 ^ Suc k \<Longrightarrow> length (str_nat n) = Suc k"
  by (intro order_antisym length_str_nat_upper length_str_nat_lower)

lemma int_pow16: "int (10 ^ 16) = 10000000000000000" by simp
lemma int_pow17: "int (10 ^ Suc 16) = 100000000000000000" by simp

lemma encode_length: assumes "in_window t" shows "length (encode t) = 17"
proof -
  let ?n = "nat (reversed_time t)"
  from assms have r: "10000000000000000 \<le> reversed_time t" "reversed_time t < 100000000000000000"
    by (simp_all add: in_window_def reversed_time_def)
  then have nn: "0 \<le> reversed_time t" by simp
  have "int (10 ^ 16) \<le> int ?n" using r nn by (simp only: int_pow16 int_nat_eq if_True)
  then have lo: "10 ^ 16 \<le> ?n" by (simp only: of_nat_le_iff)
  have "int ?n < int (10 ^ Suc 16)" using r nn by (simp only: int_pow17 int_nat_eq if_True)
  then have hi: "?n < 10 ^ Suc 16" by (simp only: of_nat_less_iff)
  have "length (str_nat ?n) = Suc 16" using lo hi by (rule length_str_nat)
  moreover have "\<not> reversed_time t < 0" using nn by simp
  ultimately show ?thesis by (simp add: encode_def str_def)
qed

lemma encode_less: 
  assumes "in_window t1" "in_window t2" "t1 < t2" shows "encode t2 < encode t1"
proof -
  from assms have p: "\<not> reversed_time t1 < 0" "\<not> reversed_time t2 < 0" "0 \<le> reversed_time t2" "reversed_time t2 < reversed_time t1"
    by (simp_all add: in_window_def reversed_time_def)
  then have lt: "nat (reversed_time t2) < nat (reversed_time t1)" by simp
  have "length (str_nat (nat (reversed_time t2))) = length (str_nat (nat (reversed_time t1)))"
    using encode_length [OF assms(1)] encode_length [OF assms(2)] p(1,2) by (simp add: encode_def str_def)
  with lt have "str_nat (nat (reversed_time t2)) < str_nat (nat (reversed_time t1))" by (rule str_nat_less)
  then show ?thesis using p(1,2) by (simp add: encode_def str_def)
qed

lemma digit_char_simps: "digit_char 0 = CHR ''0''" "digit_char (Suc 0) = CHR ''1''" "digit_char 1 = CHR ''1''"
  "digit_char 2 = CHR ''2''" "digit_char 3 = CHR ''3''" "digit_char 4 = CHR ''4''" "digit_char 5 = CHR ''5''"
  "digit_char 6 = CHR ''6''" "digit_char 7 = CHR ''7''" "digit_char 8 = CHR ''8''" "digit_char 9 = CHR ''9''"
  by (simp_all add: digit_char_def char_of_eq_iff)

lemmas str_eval =
  encode_def key_name_def reversed_time_def str_def str_nat_small str_nat_big digit_char_simps

text \<open>
  Claim C1, as amended. For timestamps \<open>t1 < t2\<close> with
  \<open>2\<^sup>3\<^sup>4 - 10\<^sup>1\<^sup>1 < t \<le> 2\<^sup>3\<^sup>4 - 10\<^sup>1\<^sup>0\<close> (every epoch second from 0 to 7179869184 is
  one), the encoded string of the earlier timestamp is greater in lexicographic order
  than that of the later one, and both strings have seventeen characters. The string is
  not padded, so the width is constant on this window only.
\<close>

theorem encode_order_in_window:
  assumes "in_window t1" and "in_window t2" and "t1 < t2"
  shows "encode t2 < encode t1 \<and> length (encode t1) = 17 \<and> length (encode t2) = 17"
  using assms encode_less [of t1 t2] encode_length [of t1] encode_length [of t2] by simp

theorem encode_order_in_window_witness:
  "in_window 1000 \<and> in_window 2000 \<and> (1000::int) < 2000 \<and>
   encode 2000 < encode 1000 \<and> length (encode 1000) = 17 \<and> length (encode 2000) = 17"
proof -
  have w: "in_window 1000" "in_window 2000" by (simp_all add: in_window_def)
  have lt: "(1000::int) < 2000" by simp
  from encode_order_in_window [OF w lt] w lt show ?thesis by simp
qed

text \<open>
  Claim C1 as stated fails: 7179869184 and 7179869185 both leave a positive difference
  from \<open>2\<^sup>3\<^sup>4\<close> and neither encoding exceeds seventeen characters, but the encoding of
  the later one has sixteen characters and is the greater string.
\<close>

theorem encode_order_counterexample:
  "spec_window 7179869184 \<and> spec_window 7179869185 \<and> (7179869184::int) < 7179869185 \<and>
   \<not> encode 7179869185 < encode 7179869184 \<and>
   length (encode 7179869184) = 17 \<and> length (encode 7179869185) = 16"
  by (simp add: spec_window_def str_eval)

section \<open>Registering hosts and storing log lines\<close>

lemma register_host_twice:
  "register_host svc hst (register_host svc hst svcs) = register_host svc hst svcs"
  by (auto simp: register_host_def split: option.splits)

lemma ListHosts_register_host:
  "ListHosts svc (register_host svc hst svcs) =
     (if hst \<in> set (ListHosts svc svcs) then ListHosts svc svcs else ListHosts svc svcs @ [hst])"
  by (auto simp: register_host_def ListHosts_def split: option.splits)

lemma services_post:
  "services (snd (LogUploadPage_post data ds)) =
     register_host (upload_service_name data) (upload_host data) (services ds)"
  by (simp add: LogUploadPage_post_def Let_def split: prod.splits)

text \<open>
  Claim C4. Registering a host twice for a service leaves the registry as registering it
  once does, also through the upload handler; the hosts listed for the service are then
  the earlier ones and the host, and a list without duplicates stays without duplicates.
  Registering \<open>h1\<close> twice for the unknown service \<open>svc\<close> lists exactly \<open>h1\<close>.
\<close>

theorem register_host_idempotent:
  "register_host svc hst (register_host svc hst svcs) = register_host svc hst svcs \<and>
   services (snd (LogUploadPage_post data (snd (LogUploadPage_post data ds)))) =
     services (snd (LogUploadPage_post data ds)) \<and>
   set (ListHosts svc (register_host svc hst (register_host svc hst svcs))) =
     insert hst (set (ListHosts svc svcs)) \<and>
   (distinct (ListHosts svc svcs) \<longrightarrow>
      distinct (ListHosts svc (register_host svc hst (register_host svc hst svcs))))"
  by (auto simp: register_host_twice services_post ListHosts_register_host)

theorem register_host_idempotent_witness:
  "distinct (ListHosts ''svc'' Map.empty) \<and>
   ListHosts ''svc'' (register_host ''svc'' ''h1'' (register_host ''svc'' ''h1'' Map.empty)) = [''h1''] \<and>
   distinct (ListHosts ''svc'' (register_host ''svc'' ''h1'' (register_host ''svc'' ''h1'' Map.empty)))"
proof -
  have d: "distinct (ListHosts ''svc'' Map.empty)" by (simp add: ListHosts_def)
  have e: "ListHosts ''svc'' (register_host ''svc'' ''h1'' (register_host ''svc'' ''h1'' Map.empty)) = [''h1'']"
    by (simp add: ListHosts_def register_host_def)
  from register_host_idempotent [of "''svc''" "''h1''" Map.empty] d e show ?thesis by blast
qed

lemma map_of_put: "map_of (put k e tbl) = (map_of tbl)(k \<mapsto> e)"
  by (simp add: put_def update_conv')

lemma distinct_put: "distinct (map fst tbl) \<Longrightarrow> distinct (map fst (put k e tbl))"
  by (simp add: put_def distinct_update)

lemma set_fst_put: "set (map fst (put k e tbl)) = insert k (set (map fst tbl))"
  using dom_update [of k e tbl] by (simp add: put_def)

lemma records_under_distinct:
  "distinct (map fst tbl) \<Longrightarrow> records_under k tbl = (if k \<in> set (map fst tbl) then 1 else 0)"
  unfolding records_under_def
proof (induction tbl)
  case Nil
  then show ?case by simp
next
  case (Cons p tbl)
  then show ?case by (cases p) (auto simp: image_iff)
qed

lemma records_under_put:
  "distinct (map fst tbl) \<Longrightarrow> records_under k (put k e tbl) = 1"
  by (simp add: records_under_distinct distinct_put set_fst_put del: set_map)

lemma add_log_line_ok:
  assumes "in_datetime_range (py_int (dict_timestamp d))"
  shows "\<exists>e. add_log_line svc hst d tbl = Inr (put (key_name svc hst (py_int (dict_timestamp d))) e tbl) \<and>
             app_logs e = stored_logs (key_name svc hst (py_int (dict_timestamp d))) tbl @ [new_entry d] \<and>
             (map_of tbl (key_name svc hst (py_int (dict_timestamp d))) = None \<longrightarrow> service_name e = svc \<and> host e = hst)"
  using assms
  by (auto simp: add_log_line_def Let_def datetime_fromtimestamp_def in_datetime_range_def
      stored_logs_def new_entry_def split: option.splits)

lemma post_single:
  fixes svc hst :: string and d :: log_line_dict and ds :: datastore
  assumes "in_datetime_range (py_int (dict_timestamp d))" and "distinct (map fst (request_logs ds))"
  defines "k \<equiv> key_name svc hst (py_int (dict_timestamp d))"
  defines "ds' \<equiv> snd (LogUploadPage_post \<lparr>upload_service_name = svc, upload_host = hst, upload_logs = [d]\<rparr> ds)"
  shows "fst (LogUploadPage_post \<lparr>upload_service_name = svc, upload_host = hst, upload_logs = [d]\<rparr> ds) = None"
    and "stored_logs k (request_logs ds') = stored_logs k (request_logs ds) @ [new_entry d]"
    and "records_under k (request_logs ds') = 1"
    and "distinct (map fst (request_logs ds'))"
    and "set (map fst (request_logs ds')) = insert k (set (map fst (request_logs ds)))"
proof -
  from add_log_line_ok [OF assms(1), of svc hst "request_logs ds"] obtain e where
    e: "add_log_line svc hst d (request_logs ds) = Inr (put k e (request_logs ds))"
       "app_logs e = stored_logs k (request_logs ds) @ [new_entry d]"
    unfolding k_def by blast
  have r: "request_logs ds' = put k e (request_logs ds)"
    and f: "fst (LogUploadPage_post \<lparr>upload_service_name = svc, upload_host = hst, upload_logs = [d]\<rparr> ds) = None"
    unfolding ds'_def by (simp_all add: LogUploadPage_post_def Let_def e(1))
  show "fst (LogUploadPage_post \<lparr>upload_service_name = svc, upload_host = hst, upload_logs = [d]\<rparr> ds) = None"
    by (rule f)
  show "stored_logs k (request_logs ds') = stored_logs k (request_logs ds) @ [new_entry d]"
    by (simp add: r stored_logs_def [of k "put k e (request_logs ds)"] map_of_put e(2))
  show "records_under k (request_logs ds') = 1"
    using assms(2) by (simp only: r records_under_put)
  show "distinct (map fst (request_logs ds'))"
    using assms(2) by (simp only: r distinct_put)
  show "set (map fst (request_logs ds')) = insert k (set (map fst (request_logs ds)))"
    by (simp only: r set_fst_put)
qed

text \<open>
  The store holds at most one entity per key name: so it is when empty, and an upload
  keeps it so, whatever the payload and also when the handler ends with an error.
\<close>

lemma add_log_line_distinct:
  "distinct (map fst tbl) \<Longrightarrow> add_log_line svc hst d tbl = Inr tbl' \<Longrightarrow> distinct (map fst tbl')"
  by (auto simp: add_log_line_def Let_def distinct_put split: sum.splits)

lemma add_log_lines_distinct:
  "distinct (map fst tbl) \<Longrightarrow> distinct (map fst (snd (add_log_lines svc hst ds tbl)))"
proof (induction ds arbitrary: tbl)
  case Nil
  then show ?case by simp
next
  case (Cons d ds)
  show ?case
  proof (cases "add_log_line svc hst d tbl")
    case (Inl err)
    with Cons.prems show ?thesis by simp
  next
    case (Inr tbl')
    from add_log_line_distinct [OF Cons.prems Inr] have "distinct (map fst tbl')" .
    from Cons.IH [OF this] Inr show ?thesis by simp
  qed
qed

lemma post_keeps_distinct:
  "distinct (map fst (request_logs ds)) \<Longrightarrow>
   distinct (map fst (request_logs (snd (LogUploadPage_post data ds))))"
  using add_log_lines_distinct [of "request_logs ds" "upload_service_name data" "upload_host data" "upload_logs data"]
  by (auto simp: LogUploadPage_post_def Let_def split: prod.splits)

lemma empty_distinct: "distinct (map fst (request_logs empty_datastore))"
  by (simp add: empty_datastore_def)

lemma two_posts:
  fixes svc1 hst1 svc2 hst2 :: string and d1 d2 :: log_line_dict and ds :: datastore
  assumes r1: "in_datetime_range (py_int (dict_timestamp d1))"
    and r2: "in_datetime_range (py_int (dict_timestamp d2))"
    and k: "key_name svc2 hst2 (py_int (dict_timestamp d2)) = key_name svc1 hst1 (py_int (dict_timestamp d1))"
    and dist: "distinct (map fst (request_logs ds))"
  defines "K \<equiv> key_name svc1 hst1 (py_int (dict_timestamp d1))"
  defines "ds1 \<equiv> snd (LogUploadPage_post \<lparr>upload_service_name = svc1, upload_host = hst1, upload_logs = [d1]\<rparr> ds)"
  defines "ds2 \<equiv> snd (LogUploadPage_post \<lparr>upload_service_name = svc2, upload_host = hst2, upload_logs = [d2]\<rparr> ds1)"
  shows "stored_logs K (request_logs ds2) = stored_logs K (request_logs ds) @ [new_entry d1, new_entry d2] \<and>
         records_under K (request_logs ds2) = 1 \<and>
         set (map fst (request_logs ds2)) = insert K (set (map fst (request_logs ds)))"
proof -
  note p1 = post_single [OF r1 dist, of svc1 hst1, folded K_def ds1_def]
  note p2 = post_single [OF r2 p1(4), of svc2 hst2, unfolded k, folded K_def ds2_def]
  from p1(2) p2(2) have "stored_logs K (request_logs ds2) = stored_logs K (request_logs ds) @ [new_entry d1, new_entry d2]"
    by simp
  moreover from p1(5) p2(5) have "set (map fst (request_logs ds2)) = insert K (set (map fst (request_logs ds)))"
    by (simp del: set_map)
  ultimately show ?thesis using p2(3) by blast
qed


lemma two_uploads:
  assumes "in_datetime_range (py_int (dict_timestamp d1))"
    and "in_datetime_range (py_int (dict_timestamp d2))"
    and "key_name svc2 hst2 (py_int (dict_timestamp d2)) = key_name svc1 hst1 (py_int (dict_timestamp d1))"
    and "distinct (map fst (request_logs ds))"
  shows "stored_logs (key_name svc1 hst1 (py_int (dict_timestamp d1)))
           (request_logs (upload_one svc2 hst2 d2 (upload_one svc1 hst1 d1 ds))) =
         stored_logs (key_name svc1 hst1 (py_int (dict_timestamp d1))) (request_logs ds) @
           [new_entry d1, new_entry d2] \<and>
         records_under (key_name svc1 hst1 (py_int (dict_timestamp d1)))
           (request_logs (upload_one svc2 hst2 d2 (upload_one svc1 hst1 d1 ds))) = 1 \<and>
         set (map fst (request_logs (upload_one svc2 hst2 d2 (upload_one svc1 hst1 d1 ds)))) =
           insert (key_name svc1 hst1 (py_int (dict_timestamp d1))) (set (map fst (request_logs ds)))"
  unfolding upload_one_def by (rule two_posts [OF assms])

lemmas upload_eval =
  upload_one_def LogUploadPage_post_def register_host_def add_log_line_def put_def
  datetime_fromtimestamp_def py_int_def new_entry_def stored_logs_def records_under_def
  in_datetime_range_def empty_datastore_def Let_def

text \<open>
  Claim C2. Two uploads of an entry for the same service, host and timestamp, whatever
  their messages, leave exactly one record under the key of (service, host, timestamp),
  and its entries are those stored before followed by the two entries in the order of
  the uploads. The timestamp is one that \<^verbatim>\<open>datetime.fromtimestamp\<close> accepts, and the
  store holds at most one entity per key.
\<close>

theorem upload_twice_one_record:
  assumes "in_datetime_range (py_int t)" and "distinct (map fst (request_logs ds))"
  shows "records_under (key_name svc hst (py_int t))
           (request_logs (upload_one svc hst (LogLineDict t m2 l2)
              (upload_one svc hst (LogLineDict t m1 l1) ds))) = 1 \<and>
         stored_logs (key_name svc hst (py_int t))
           (request_logs (upload_one svc hst (LogLineDict t m2 l2)
              (upload_one svc hst (LogLineDict t m1 l1) ds))) =
         stored_logs (key_name svc hst (py_int t)) (request_logs ds) @
           [\<lparr>message = m1, level = l1, timestamp = py_int t\<rparr>,
            \<lparr>message = m2, level = l2, timestamp = py_int t\<rparr>]"
  using two_uploads [of "LogLineDict t m1 l1" "LogLineDict t m2 l2" svc hst svc hst ds] assms
  by (simp add: new_entry_def)

theorem upload_twice_one_record_witness:
  "in_datetime_range (py_int 1000) \<and> distinct (map fst (request_logs empty_datastore)) \<and>
   request_logs (upload_one ''s1'' ''h1'' (LogLineDict 1000 ''second'' 2)
      (upload_one ''s1'' ''h1'' (LogLineDict 1000 ''first'' 1) empty_datastore)) =
     [(''s1h117179868184000000'',
       \<lparr>service_name = ''s1'', host = ''h1'',
        app_logs = [\<lparr>message = ''first'', level = 1, timestamp = 1000\<rparr>,
                    \<lparr>message = ''second'', level = 2, timestamp = 1000\<rparr>]\<rparr>)] \<and>
   records_under (key_name ''s1'' ''h1'' (py_int 1000))
     (request_logs (upload_one ''s1'' ''h1'' (LogLineDict 1000 ''second'' 2)
        (upload_one ''s1'' ''h1'' (LogLineDict 1000 ''first'' 1) empty_datastore))) = 1"
proof -
  have r: "in_datetime_range (py_int 1000)" by (simp add: in_datetime_range_def py_int_def)
  have d: "distinct (map fst (request_logs empty_datastore))" by (simp add: empty_datastore_def)
  have e: "request_logs (upload_one ''s1'' ''h1'' (LogLineDict 1000 ''second'' 2)
      (upload_one ''s1'' ''h1'' (LogLineDict 1000 ''first'' 1) empty_datastore)) =
     [(''s1h117179868184000000'',
       \<lparr>service_name = ''s1'', host = ''h1'',
        app_logs = [\<lparr>message = ''first'', level = 1, timestamp = 1000\<rparr>,
                    \<lparr>message = ''second'', level = 2, timestamp = 1000\<rparr>]\<rparr>)]"
    by (simp add: upload_eval str_eval)
  from upload_twice_one_record [OF r d, of "''s1''" "''h1''" "''second''" 2 "''first''" 1] r d e
  show ?thesis by blast
qed

text \<open>
  Claim C8. The key is the plain concatenation of service name, host and encoded
  timestamp: service \<open>ab\<close> with host \<open>c\<close> and service \<open>a\<close> with host \<open>bc\<close> are distinct
  pairs with the same key at the same timestamp, and the entries that the two upload are
  merged into the single record under that key.
\<close>

theorem key_collision_merges:
  assumes "in_datetime_range (py_int (dict_timestamp d1))"
    and "py_int (dict_timestamp d2) = py_int (dict_timestamp d1)"
    and "distinct (map fst (request_logs ds))"
  shows "(''ab'', ''c'') \<noteq> (''a'', ''bc'') \<and>
         key_name ''ab'' ''c'' (py_int (dict_timestamp d1)) = key_name ''a'' ''bc'' (py_int (dict_timestamp d2)) \<and>
         records_under (key_name ''ab'' ''c'' (py_int (dict_timestamp d1)))
           (request_logs (upload_one ''a'' ''bc'' d2 (upload_one ''ab'' ''c'' d1 ds))) = 1 \<and>
         stored_logs (key_name ''ab'' ''c'' (py_int (dict_timestamp d1)))
           (request_logs (upload_one ''a'' ''bc'' d2 (upload_one ''ab'' ''c'' d1 ds))) =
         stored_logs (key_name ''ab'' ''c'' (py_int (dict_timestamp d1))) (request_logs ds) @
           [new_entry d1, new_entry d2]"
proof -
  have k: "key_name ''a'' ''bc'' (py_int (dict_timestamp d2)) = key_name ''ab'' ''c'' (py_int (dict_timestamp d1))"
    by (simp add: key_name_def assms(2))
  from assms(1,2) have r2: "in_datetime_range (py_int (dict_timestamp d2))" by simp
  from two_uploads [OF assms(1) r2 k assms(3)] k show ?thesis by simp
qed

text \<open>
  Claim C9, as amended. The timestamp of an uploaded entry is converted to an integer,
  which truncates toward zero, before the key is built. So two entries of one service
  and host whose timestamps are not negative and lie in the same whole second get the
  same key and are stored in the same record, each with the whole second as its
  timestamp.
\<close>

theorem same_second_same_record:
  assumes "0 \<le> t1" and "0 \<le> t2" and "\<lfloor>t2\<rfloor> = \<lfloor>t1\<rfloor>"
    and "in_datetime_range \<lfloor>t1\<rfloor>"
    and "distinct (map fst (request_logs ds))"
  shows "py_int t1 = \<lfloor>t1\<rfloor> \<and> py_int t2 = \<lfloor>t1\<rfloor> \<and>
         key_name svc hst (py_int t2) = key_name svc hst (py_int t1) \<and>
         records_under (key_name svc hst \<lfloor>t1\<rfloor>)
           (request_logs (upload_one svc hst (LogLineDict t2 m2 l2)
              (upload_one svc hst (LogLineDict t1 m1 l1) ds))) = 1 \<and>
         stored_logs (key_name svc hst \<lfloor>t1\<rfloor>)
           (request_logs (upload_one svc hst (LogLineDict t2 m2 l2)
              (upload_one svc hst (LogLineDict t1 m1 l1) ds))) =
         stored_logs (key_name svc hst \<lfloor>t1\<rfloor>) (request_logs ds) @
           [\<lparr>message = m1, level = l1, timestamp = \<lfloor>t1\<rfloor>\<rparr>,
            \<lparr>message = m2, level = l2, timestamp = \<lfloor>t1\<rfloor>\<rparr>]"
proof -
  from assms(1,2,3) have p: "py_int t1 = \<lfloor>t1\<rfloor>" "py_int t2 = \<lfloor>t1\<rfloor>"
    by (simp_all add: py_int_def)
  with two_uploads [of "LogLineDict t1 m1 l1" "LogLineDict t2 m2 l2" svc hst svc hst ds] assms(4,5)
  show ?thesis by (simp add: new_entry_def)
qed

lemma floor_frac: "\<lfloor>4001 / 4 :: rat\<rfloor> = 1000" "\<lfloor>4003 / 4 :: rat\<rfloor> = 1000"
  by (rule floor_unique; simp)+

theorem same_second_same_record_witness:
  "(0::rat) \<le> 4001 / 4 \<and> (0::rat) \<le> 4003 / 4 \<and> \<lfloor>4003 / 4 :: rat\<rfloor> = \<lfloor>4001 / 4 :: rat\<rfloor> \<and>
   in_datetime_range \<lfloor>4001 / 4 :: rat\<rfloor> \<and>
   distinct (map fst (request_logs empty_datastore)) \<and>
   key_name ''s1'' ''h1'' (py_int (4003 / 4)) = key_name ''s1'' ''h1'' (py_int (4001 / 4)) \<and>
   stored_logs (key_name ''s1'' ''h1'' 1000)
     (request_logs (upload_one ''s1'' ''h1'' (LogLineDict (4003 / 4) ''late'' 2)
        (upload_one ''s1'' ''h1'' (LogLineDict (4001 / 4) ''early'' 1) empty_datastore))) =
     [\<lparr>message = ''early'', level = 1, timestamp = 1000\<rparr>,
      \<lparr>message = ''late'', level = 2, timestamp = 1000\<rparr>]"
proof -
  have n: "(0::rat) \<le> 4001 / 4" "(0::rat) \<le> 4003 / 4" by simp_all
  have f: "\<lfloor>4003 / 4 :: rat\<rfloor> = \<lfloor>4001 / 4 :: rat\<rfloor>" by (simp only: floor_frac)
  have r: "in_datetime_range \<lfloor>4001 / 4 :: rat\<rfloor>"
    by (simp only: floor_frac) (simp add: in_datetime_range_def)
  have d: "distinct (map fst (request_logs empty_datastore))" by (simp add: empty_datastore_def)
  have s: "stored_logs k (request_logs empty_datastore) = []" for k
    by (simp add: stored_logs_def empty_datastore_def)
  note t = same_second_same_record [OF n f r d, of "''s1''" "''h1''" "''late''" 2 "''early''" 1,
      unfolded floor_frac s append_Nil]
  from t have k: "key_name ''s1'' ''h1'' (py_int (4003 / 4)) = key_name ''s1'' ''h1'' (py_int (4001 / 4))"
    by blast
  from t have l: "stored_logs (key_name ''s1'' ''h1'' 1000)
     (request_logs (upload_one ''s1'' ''h1'' (LogLineDict (4003 / 4) ''late'' 2)
        (upload_one ''s1'' ''h1'' (LogLineDict (4001 / 4) ''early'' 1) empty_datastore))) =
     [\<lparr>message = ''early'', level = 1, timestamp = 1000\<rparr>,
      \<lparr>message = ''late'', level = 2, timestamp = 1000\<rparr>]"
    by blast
  from n f r d k l show ?thesis by (intro conjI)
qed

lemma floor_minus:
  "\<lfloor>- 2 :: rat\<rfloor> = - 2" "\<lfloor>- (3 / 2) :: rat\<rfloor> = - 2" "\<lceil>- (3 / 2) :: rat\<rceil> = - 1"
proof -
  show "\<lfloor>- 2 :: rat\<rfloor> = - 2" by simp
  show "\<lfloor>- (3 / 2) :: rat\<rfloor> = - 2" by (rule floor_unique; simp)
  show "\<lceil>- (3 / 2) :: rat\<rceil> = - 1" by (rule ceiling_unique; simp)
qed

lemma py_int_minus: "py_int (- 2) = - 2" "py_int (- (3 / 2)) = - 1"
  using floor_minus by (simp_all add: py_int_def)

text \<open>
  Claim C9 as stated fails before the epoch: the timestamps \<open>-2\<close> and \<open>-3/2\<close> lie in the
  same whole second, but their integer conversions are \<open>-2\<close> and \<open>-1\<close>, the keys differ,
  and the two uploads leave two records.
\<close>

theorem same_second_counterexample:
  "\<lfloor>- (3 / 2) :: rat\<rfloor> = \<lfloor>- 2 :: rat\<rfloor> \<and>
   key_name ''s1'' ''h1'' (py_int (- (3 / 2))) \<noteq> key_name ''s1'' ''h1'' (py_int (- 2)) \<and>
   request_logs (upload_one ''s1'' ''h1'' (LogLineDict (- (3 / 2)) ''late'' 2)
      (upload_one ''s1'' ''h1'' (LogLineDict (- 2) ''early'' 1) empty_datastore)) =
     [(''s1h117179869186000000'',
       \<lparr>service_name = ''s1'', host = ''h1'',
        app_logs = [\<lparr>message = ''early'', level = 1, timestamp = - 2\<rparr>]\<rparr>),
      (''s1h117179869185000000'',
       \<lparr>service_name = ''s1'', host = ''h1'',
        app_logs = [\<lparr>message = ''late'', level = 2, timestamp = - 1\<rparr>]\<rparr>)]"
proof -
  have f: "\<lfloor>- (3 / 2) :: rat\<rfloor> = \<lfloor>- 2 :: rat\<rfloor>" by (simp only: floor_minus)
  have k: "key_name ''s1'' ''h1'' (py_int (- (3 / 2))) \<noteq> key_name ''s1'' ''h1'' (py_int (- 2))"
    by (simp add: py_int_minus str_eval)
  have e: "request_logs (upload_one ''s1'' ''h1'' (LogLineDict (- (3 / 2)) ''late'' 2)
      (upload_one ''s1'' ''h1'' (LogLineDict (- 2) ''early'' 1) empty_datastore)) =
     [(''s1h117179869186000000'',
       \<lparr>service_name = ''s1'', host = ''h1'',
        app_logs = [\<lparr>message = ''early'', level = 1, timestamp = - 2\<rparr>]\<rparr>),
      (''s1h117179869185000000'',
       \<lparr>service_name = ''s1'', host = ''h1'',
        app_logs = [\<lparr>message = ''late'', level = 2, timestamp = - 1\<rparr>]\<rparr>)]"
    by (simp add: upload_one_def LogUploadPage_post_def register_host_def add_log_line_def put_def
        datetime_fromtimestamp_def in_datetime_range_def empty_datastore_def Let_def
        py_int_minus str_eval)
  from f k e show ?thesis by (intro conjI)
qed

theorem key_collision_merges_witness:
  "in_datetime_range (py_int (dict_timestamp (LogLineDict 1000 ''from ab'' 1))) \<and>
   py_int (dict_timestamp (LogLineDict 1000 ''from a'' 3)) = py_int (dict_timestamp (LogLineDict 1000 ''from ab'' 1)) \<and>
   distinct (map fst (request_logs empty_datastore)) \<and>
   request_logs (upload_one ''a'' ''bc'' (LogLineDict 1000 ''from a'' 3)
      (upload_one ''ab'' ''c'' (LogLineDict 1000 ''from ab'' 1) empty_datastore)) =
     [(''abc17179868184000000'',
       \<lparr>service_name = ''ab'', host = ''c'',
        app_logs = [\<lparr>message = ''from ab'', level = 1, timestamp = 1000\<rparr>,
                    \<lparr>message = ''from a'', level = 3, timestamp = 1000\<rparr>]\<rparr>)] \<and>
   records_under (key_name ''ab'' ''c'' (py_int (dict_timestamp (LogLineDict 1000 ''from ab'' 1))))
     (request_logs (upload_one ''a'' ''bc'' (LogLineDict 1000 ''from a'' 3)
        (upload_one ''ab'' ''c'' (LogLineDict 1000 ''from ab'' 1) empty_datastore))) = 1"
proof -
  have r: "in_datetime_range (py_int (dict_timestamp (LogLineDict 1000 ''from ab'' 1)))"
    by (simp add: in_datetime_range_def py_int_def)
  have p: "py_int (dict_timestamp (LogLineDict 1000 ''from a'' 3)) = py_int (dict_timestamp (LogLineDict 1000 ''from ab'' 1))"
    by simp
  have d: "distinct (map fst (request_logs empty_datastore))" by (simp add: empty_datastore_def)
  have e: "request_logs (upload_one ''a'' ''bc'' (LogLineDict 1000 ''from a'' 3)
      (upload_one ''ab'' ''c'' (LogLineDict 1000 ''from ab'' 1) empty_datastore)) =
     [(''abc17179868184000000'',
       \<lparr>service_name = ''ab'', host = ''c'',
        app_logs = [\<lparr>message = ''from ab'', level = 1, timestamp = 1000\<rparr>,
                    \<lparr>message = ''from a'', level = 3, timestamp = 1000\<rparr>]\<rparr>)]"
    by (simp add: upload_eval str_eval)
  from key_collision_merges [OF r p d] r p d e show ?thesis by blast
qed

section \<open>Refresh triggers\<close>

lemma enqueue_refresh_no_faults:
  "faults q = [] \<Longrightarrow>
   enqueue_refresh q =
     q\<lparr>tasks := tasks q @ [\<lparr>url = ''/status/refresh'', countdown = 0\<rparr>,
                              \<lparr>url = ''/status/refresh'', countdown = 10\<rparr>]\<rparr>"
  by (simp add: enqueue_refresh_def taskqueue_add_def REFRESH_WAIT_TIME_def)

text \<open>
  Claim C5. While the task queue accepts the tasks, an app upload that succeeds and an
  app delete each add exactly two refresh tasks to the queue, one with no countdown and
  one with a countdown of 10 (\<^verbatim>\<open>REFRESH_WAIT_TIME\<close>); an upload that fails (no file, no
  right to upload, an \<^verbatim>\<open>AppHelperException\<close> or no success message) adds none.
\<close>

theorem refresh_triggers_on_mutation:
  "(faults q = [] \<and> has_app_file req \<and> can_upload_apps req \<and> upload_app req = Inr msg \<and> msg \<noteq> [] \<longrightarrow>
      tasks (snd (AppUploadPage_post req q)) =
        tasks q @ [\<lparr>url = ''/status/refresh'', countdown = 0\<rparr>,
                   \<lparr>url = ''/status/refresh'', countdown = 10\<rparr>]) \<and>
   (faults q = [] \<and> (delete_is_cloud_admin dreq \<or> appname dreq \<in> set (owned_apps dreq)) \<longrightarrow>
      tasks (snd (AppDeletePage_post dreq q)) =
        tasks q @ [\<lparr>url = ''/status/refresh'', countdown = 0\<rparr>,
                   \<lparr>url = ''/status/refresh'', countdown = 10\<rparr>]) \<and>
   (\<not> has_app_file bad \<or> \<not> can_upload_apps bad \<or> isl (upload_app bad) \<or> upload_app bad = Inr [] \<longrightarrow>
      tasks (snd (AppUploadPage_post bad q')) = tasks q')"
proof (intro conjI impI)
  assume "faults q = [] \<and> has_app_file req \<and> can_upload_apps req \<and> upload_app req = Inr msg \<and> msg \<noteq> []"
  then show "tasks (snd (AppUploadPage_post req q)) =
        tasks q @ [\<lparr>url = ''/status/refresh'', countdown = 0\<rparr>,
                   \<lparr>url = ''/status/refresh'', countdown = 10\<rparr>]"
    by (simp add: AppUploadPage_post_def enqueue_refresh_no_faults)
next
  assume "faults q = [] \<and> (delete_is_cloud_admin dreq \<or> appname dreq \<in> set (owned_apps dreq))"
  then show "tasks (snd (AppDeletePage_post dreq q)) =
        tasks q @ [\<lparr>url = ''/status/refresh'', countdown = 0\<rparr>,
                   \<lparr>url = ''/status/refresh'', countdown = 10\<rparr>]"
    by (auto simp: AppDeletePage_post_def enqueue_refresh_no_faults)
next
  assume "\<not> has_app_file bad \<or> \<not> can_upload_apps bad \<or> isl (upload_app bad) \<or> upload_app bad = Inr []"
  then show "tasks (snd (AppUploadPage_post bad q')) = tasks q'"
    by (auto simp: AppUploadPage_post_def isl_def split: sum.splits error.splits)
qed

theorem refresh_triggers_on_mutation_witness:
  "faults \<lparr>tasks = [], faults = []\<rparr> = [] \<and>
   tasks (snd (AppUploadPage_post
      \<lparr>has_app_file = True, can_upload_apps = True, upload_app = Inr ''uploaded''\<rparr>
      \<lparr>tasks = [], faults = []\<rparr>)) =
     [\<lparr>url = ''/status/refresh'', countdown = 0\<rparr>, \<lparr>url = ''/status/refresh'', countdown = 10\<rparr>] \<and>
   tasks (snd (AppDeletePage_post
      \<lparr>delete_is_cloud_admin = False, owned_apps = [''app1''], appname = ''app1'', delete_app = ''deleted''\<rparr>
      \<lparr>tasks = [], faults = []\<rparr>)) =
     [\<lparr>url = ''/status/refresh'', countdown = 0\<rparr>, \<lparr>url = ''/status/refresh'', countdown = 10\<rparr>] \<and>
   isl (upload_app \<lparr>has_app_file = True, can_upload_apps = True,
                     upload_app = Inl (AppHelperException ''bad file'')\<rparr>) \<and>
   tasks (snd (AppUploadPage_post
      \<lparr>has_app_file = True, can_upload_apps = True, upload_app = Inl (AppHelperException ''bad file'')\<rparr>
      \<lparr>tasks = [], faults = []\<rparr>)) = []"
  using refresh_triggers_on_mutation
    [of "\<lparr>tasks = [], faults = []\<rparr>"
        "\<lparr>has_app_file = True, can_upload_apps = True, upload_app = Inr ''uploaded''\<rparr>"
        "''uploaded''"
        "\<lparr>delete_is_cloud_admin = False, owned_apps = [''app1''], appname = ''app1'', delete_app = ''deleted''\<rparr>"
        "\<lparr>has_app_file = True, can_upload_apps = True, upload_app = Inl (AppHelperException ''bad file'')\<rparr>"
        "\<lparr>tasks = [], faults = []\<rparr>"]
  by simp

text \<open>
  A call of \<^verbatim>\<open>taskqueue.add\<close> that raises is caught and logged: the tasks added before it
  stay, the later ones are not added.
\<close>

lemma queue_fault_example:
  "tasks (snd (AppUploadPage_post
      \<lparr>has_app_file = True, can_upload_apps = True, upload_app = Inr ''uploaded''\<rparr>
      \<lparr>tasks = [], faults = [False, True]\<rparr>)) = [\<lparr>url = ''/status/refresh'', countdown = 0\<rparr>]"
  by (simp add: AppUploadPage_post_def enqueue_refresh_def taskqueue_add_def REFRESH_WAIT_TIME_def)

section \<open>Cursors of the log viewer\<close>

text \<open>
  Claim C6, as amended. A request whose \<^verbatim>\<open>next_cursor\<close> parameter is not empty, is not
  the text \<^verbatim>\<open>None\<close> and does not decode raises the decoding error out of the handler:
  no page is rendered, and the answer is the error page with status 500.
\<close>

theorem invalid_cursor_is_status_500:
  assumes "next_cursor_param req \<noteq> []" and "next_cursor_param req \<noteq> ''None''"
    and "Cursor_urlsafe (next_cursor_param req) = Inl err"
  shows "LogServiceHostPage_get req svc hst ds = Inl err \<and>
         dispatch (LogServiceHostPage_get req svc hst ds) = Status500"
  using assms by (simp add: LogServiceHostPage_get_def dispatch_def)

theorem invalid_cursor_is_status_500_witness:
  "next_cursor_param \<lparr>is_cloud_admin = False, apps_user_is_admin_on = [''s1''], next_cursor_param = ''xyz''\<rparr> \<noteq> [] \<and>
   next_cursor_param \<lparr>is_cloud_admin = False, apps_user_is_admin_on = [''s1''], next_cursor_param = ''xyz''\<rparr> \<noteq> ''None'' \<and>
   Cursor_urlsafe (next_cursor_param \<lparr>is_cloud_admin = False, apps_user_is_admin_on = [''s1''], next_cursor_param = ''xyz''\<rparr>) = Inl BadValueError \<and>
   LogServiceHostPage_get \<lparr>is_cloud_admin = False, apps_user_is_admin_on = [''s1''], next_cursor_param = ''xyz''\<rparr>
     ''s1'' ''all'' empty_datastore = Inl BadValueError \<and>
   dispatch (LogServiceHostPage_get \<lparr>is_cloud_admin = False, apps_user_is_admin_on = [''s1''], next_cursor_param = ''xyz''\<rparr>
     ''s1'' ''all'' empty_datastore) = Status500"
proof -
  let ?req = "\<lparr>is_cloud_admin = False, apps_user_is_admin_on = [''s1''], next_cursor_param = ''xyz''\<rparr>"
  have a: "next_cursor_param ?req \<noteq> []" "next_cursor_param ?req \<noteq> ''None''"
    "Cursor_urlsafe (next_cursor_param ?req) = Inl BadValueError" by simp_all
  from invalid_cursor_is_status_500 [OF a, of "''s1''" "''all''" empty_datastore] a show ?thesis by blast
qed

text \<open>
  Claim C6 as stated fails: with the parameter \<^verbatim>\<open>garbage\<close> the handler ends with the
  decoding error and the answer is the status 500 page, not an instruction to restart
  from the first page.
\<close>

theorem invalid_cursor_counterexample:
  "LogServiceHostPage_get \<lparr>is_cloud_admin = True, apps_user_is_admin_on = [], next_cursor_param = ''garbage''\<rparr>
     ''s1'' ''h1'' empty_datastore = Inl BadValueError \<and>
   dispatch (LogServiceHostPage_get \<lparr>is_cloud_admin = True, apps_user_is_admin_on = [], next_cursor_param = ''garbage''\<rparr>
     ''s1'' ''h1'' empty_datastore) = Status500"
  by (simp add: LogServiceHostPage_get_def dispatch_def)

section \<open>Refresh cycles\<close>

lemma cycles_foldl:
  "cycles (foldl refresh_step r evs) = cycles r + length (filter (\<lambda>e. e = Trigger) evs)"
proof (induction evs arbitrary: r)
  case Nil
  then show ?case by simp
next
  case (Cons e evs)
  then show ?case by (cases e) simp_all
qed

lemma in_flight_triggers:
  "in_flight (foldl refresh_step r (replicate n Trigger)) = in_flight r + n"
  by (induction n arbitrary: r) simp_all

text \<open>
  Claim C7, as amended. Every request to \<^verbatim>\<open>/status/refresh\<close> runs \<^verbatim>\<open>update_all\<close>,
  whether or not another request is still running it: the number of cycles grows by the
  number of triggers, and \<open>n\<close> triggers that arrive before any cycle ends leave \<open>n\<close> more
  cycles in flight. Nothing is coalesced.
\<close>

theorem every_trigger_runs_a_cycle:
  "cycles (refresh_run r evs) = cycles r + length (filter (\<lambda>e. e = Trigger) evs) \<and>
   cycles (refresh_run r (replicate n Trigger)) = cycles r + n \<and>
   in_flight (refresh_run r (replicate n Trigger)) = in_flight r + n"
  by (simp add: refresh_run_def cycles_foldl in_flight_triggers)

text \<open>
  Claim C7 as stated fails: three triggers that arrive while one cycle is in flight start
  three more cycles, four being in flight together, where the claim has one follow-up
  cycle and at most one cycle in flight.
\<close>

theorem coalescing_counterexample:
  "refresh_run \<lparr>cycles = 1, in_flight = 1\<rparr> [Trigger, Trigger, Trigger] = \<lparr>cycles = 4, in_flight = 4\<rparr>"
  by (simp add: refresh_run_def)

section \<open>The first page\<close>

lemma fetch_page_first:
  "fst (fetch_page n None flt tbl) = take n (sort_key fst (filter (\<lambda>(k, e). flt e) tbl))"
  by (simp add: fetch_page_def Let_def)

text \<open>
  Claim C10. The handler answers a request whose \<^verbatim>\<open>next_cursor\<close> parameter is the text
  \<^verbatim>\<open>None\<close> exactly as one whose parameter is absent or empty: nothing is decoded, and
  the page is the first page of the listing.
\<close>

theorem none_cursor_is_no_cursor:
  "LogServiceHostPage_get (req\<lparr>next_cursor_param := ''None''\<rparr>) svc hst ds =
     LogServiceHostPage_get (req\<lparr>next_cursor_param := []\<rparr>) svc hst ds \<and>
   (\<exists>page. LogServiceHostPage_get (req\<lparr>next_cursor_param := ''None''\<rparr>) svc hst ds = Inr page \<and>
      query page = take LOGS_PER_PAGE (listing svc hst ds))"
  by (simp add: LogServiceHostPage_get_def Let_def listing_def matching_def fetch_page_def
      split: prod.splits)

section \<open>Following the pages\<close>

lemma distinct_keys_matching:
  "distinct (map fst tbl) \<Longrightarrow> distinct (map fst (matching svc hst tbl))"
  by (simp add: matching_def distinct_map_filter)

lemma listing_strict:
  assumes "distinct (map fst (request_logs ds))"
  shows "sorted_wrt (<) (map fst (listing svc hst ds))"
proof -
  let ?m = "matching svc hst (request_logs ds)"
  from assms have d: "distinct (map fst ?m)" by (rule distinct_keys_matching)
  then have "distinct ?m" "inj_on fst (set ?m)" by (simp_all add: distinct_map)
  then have "distinct (map fst (sort_key fst ?m))" by (simp add: distinct_map)
  moreover have "sorted (map fst (sort_key fst ?m))" by (rule sorted_sort_key)
  ultimately show ?thesis by (simp add: listing_def strict_sorted_iff)
qed

lemma filter_after_last:
  fixes pre rest :: "(string \<times> 'a) list"
  assumes "sorted_wrt (<) (map fst (pre @ rest))" and "pre \<noteq> []"
  shows "filter (\<lambda>(k, e). fst (last pre) < k) (pre @ rest) = rest"
proof -
  from assms(1) have sp: "sorted_wrt (<) (map fst pre)"
    and sr: "\<forall>x\<in>set pre. \<forall>y\<in>set rest. fst x < fst y"
    by (auto simp: sorted_wrt_append)
  have "\<forall>x\<in>set pre. fst x \<le> fst (last pre)"
  proof
    fix x assume x: "x \<in> set pre"
    from assms(2) have pre: "pre = butlast pre @ [last pre]" by simp
    have "set pre = set (butlast pre) \<union> {last pre}"
      by (subst pre) (simp only: set_append list.set(1,2))
    with x have "x \<in> set (butlast pre) \<or> x = last pre" by blast
    moreover have "sorted_wrt (<) (map fst (butlast pre @ [last pre]))"
      using sp pre by simp
    then have "\<forall>y\<in>set (butlast pre). fst y < fst (last pre)"
      by (simp add: sorted_wrt_append)
    ultimately show "fst x \<le> fst (last pre)" by auto
  qed
  then have "filter (\<lambda>(k, e). fst (last pre) < k) pre = []"
    by (auto simp: filter_empty_conv)
  moreover from assms(2) sr have "\<forall>y\<in>set rest. fst (last pre) < fst y" by simp
  then have "filter (\<lambda>(k, e). fst (last pre) < k) rest = rest"
    by (auto simp: filter_id_conv)
  ultimately show ?thesis by simp
qed

lemma Cursor_urlsafe_urlsafe: "Cursor_urlsafe (urlsafe c) = Inr c"
  by (simp add: urlsafe_def)

lemma urlsafe_not_absent: "urlsafe c \<noteq> []" "urlsafe c \<noteq> ''None''"
  by (simp_all add: urlsafe_def)

lemma fetch_page_rest:
  fixes rest :: log_table
  assumes "rest = (case start of None \<Rightarrow> sort_key fst (filter (\<lambda>(k, e). flt e) tbl)
                   | Some c \<Rightarrow> filter (\<lambda>(k, e). c < k) (sort_key fst (filter (\<lambda>(k, e). flt e) tbl)))"
    and "0 < n"
  shows "fetch_page n start flt tbl =
           (take n rest, (if n < length rest then Some (fst (last (take n rest))) else None),
            n < length rest)"
proof -
  have "n < length rest \<Longrightarrow> take n rest \<noteq> []" using assms(2) by auto
  then have "(if n < length rest \<and> take n rest \<noteq> [] then Some (fst (last (take n rest))) else None) =
             (if n < length rest then Some (fst (last (take n rest))) else None)"
    by simp
  then show ?thesis
    unfolding fetch_page_def Let_def assms(1) [symmetric] by (simp only:)
qed

lemma get_page:
  fixes req :: log_request and svc hst :: string and ds :: datastore and start :: "cursor option"
    and rest :: log_table
  assumes "(start = None \<and> (next_cursor_param req = [] \<or> next_cursor_param req = ''None'')) \<or>
           (\<exists>c. start = Some c \<and> next_cursor_param req = urlsafe c)"
    and "rest = (case start of None \<Rightarrow> listing svc hst ds
                 | Some c \<Rightarrow> filter (\<lambda>(k, e). c < k) (listing svc hst ds))"
  shows "\<exists>page. LogServiceHostPage_get req svc hst ds = Inr page \<and>
           query page = take LOGS_PER_PAGE rest \<and>
           is_more page = (LOGS_PER_PAGE < length rest) \<and>
           next_cursor page = (if LOGS_PER_PAGE < length rest
                               then Some (urlsafe (fst (last (take LOGS_PER_PAGE rest)))) else None)"
proof -
  have dec: "(if next_cursor_param req \<noteq> [] \<and> next_cursor_param req \<noteq> ''None''
              then (case Cursor_urlsafe (next_cursor_param req) of Inl err \<Rightarrow> Inl err | Inr c \<Rightarrow> Inr (Some c))
              else Inr None) = Inr start"
    using assms(1) by (auto simp: urlsafe_def)
  define flt :: "RequestLogLine \<Rightarrow> bool" where "flt = (if hst = ''all'' then (\<lambda>e. service_name e = svc)
                           else (\<lambda>e. service_name e = svc \<and> host e = hst))"
  have m: "listing svc hst ds = sort_key fst (filter (\<lambda>(k, e). flt e) (request_logs ds))"
    by (simp add: listing_def matching_def flt_def)
  have fp: "(if hst = ''all''
             then fetch_page LOGS_PER_PAGE start (\<lambda>e. service_name e = svc) (request_logs ds)
             else fetch_page LOGS_PER_PAGE start (\<lambda>e. service_name e = svc \<and> host e = hst) (request_logs ds)) =
            fetch_page LOGS_PER_PAGE start flt (request_logs ds)"
    by (simp add: flt_def)
  have pos: "0 < LOGS_PER_PAGE" by (simp add: LOGS_PER_PAGE_def)
  have r: "fetch_page LOGS_PER_PAGE start flt (request_logs ds) =
           (take LOGS_PER_PAGE rest,
            (if LOGS_PER_PAGE < length rest then Some (fst (last (take LOGS_PER_PAGE rest))) else None),
            LOGS_PER_PAGE < length rest)"
    by (rule fetch_page_rest [OF assms(2) [unfolded m] pos])
  show ?thesis
    unfolding LogServiceHostPage_get_def Let_def dec sum.case fp r by simp
qed

lemma paginate_from:
  fixes req :: log_request
  assumes "sorted_wrt (<) (map fst (listing svc hst ds))"
    and "listing svc hst ds = pre @ rest"
    and "(pre = [] \<and> next_cursor_param req = []) \<or>
         (pre \<noteq> [] \<and> next_cursor_param req = urlsafe (fst (last pre)))"
    and "length rest < fuel"
  shows "paginate fuel req svc hst ds = Some rest"
  using assms
proof (induction fuel arbitrary: req pre rest)
  case 0
  then show ?case by simp
next
  case (Suc fuel)
  define start where "start = (if pre = [] then None else Some (fst (last pre)))"
  have st: "(start = None \<and> (next_cursor_param req = [] \<or> next_cursor_param req = ''None'')) \<or>
            (\<exists>c. start = Some c \<and> next_cursor_param req = urlsafe c)"
    using Suc.prems(3) by (auto simp: start_def)
  have rest: "(case start of None \<Rightarrow> listing svc hst ds
               | Some c \<Rightarrow> filter (\<lambda>(k, e). c < k) (listing svc hst ds)) = rest"
  proof (cases "pre = []")
    case True
    with Suc.prems(2) show ?thesis by (simp add: start_def)
  next
    case False
    from Suc.prems(1) have "sorted_wrt (<) (map fst (pre @ rest))" by (simp only: Suc.prems(2))
    from filter_after_last [OF this False] False show ?thesis
      by (simp add: start_def Suc.prems(2))
  qed
  from get_page [OF st rest [symmetric]] obtain page where
    page: "LogServiceHostPage_get req svc hst ds = Inr page"
      "query page = take LOGS_PER_PAGE rest"
      "is_more page = (LOGS_PER_PAGE < length rest)"
      "next_cursor page = (if LOGS_PER_PAGE < length rest
                           then Some (urlsafe (fst (last (take LOGS_PER_PAGE rest)))) else None)"
    by blast
  show ?case
  proof (cases "LOGS_PER_PAGE < length rest")
    case False
    with page show ?thesis by simp
  next
    case True
    let ?pg = "take LOGS_PER_PAGE rest"
    let ?req = "req\<lparr>next_cursor_param := cursor_link (next_cursor page)\<rparr>"
    have ne: "?pg \<noteq> []" using True by (auto simp: LOGS_PER_PAGE_def)
    have l: "listing svc hst ds = (pre @ ?pg) @ drop LOGS_PER_PAGE rest"
      by (simp add: Suc.prems(2))
    have c: "(pre @ ?pg = [] \<and> next_cursor_param ?req = []) \<or>
             (pre @ ?pg \<noteq> [] \<and> next_cursor_param ?req = urlsafe (fst (last (pre @ ?pg))))"
      using ne True by (simp add: page(4) cursor_link_def)
    have n: "length (drop LOGS_PER_PAGE rest) < fuel"
      using True Suc.prems(4) by (simp add: LOGS_PER_PAGE_def)
    from Suc.IH [OF Suc.prems(1) l c n]
    have "paginate fuel ?req svc hst ds = Some (drop LOGS_PER_PAGE rest)" .
    with page True show ?thesis by simp
  qed
qed

lemma length_listing: "length (listing svc hst ds) \<le> length (request_logs ds)"
  by (simp add: listing_def matching_def)

lemma paginate_all:
  assumes "distinct (map fst (request_logs ds))" and "length (request_logs ds) < fuel"
  shows "paginate fuel (req\<lparr>next_cursor_param := []\<rparr>) svc hst ds = Some (listing svc hst ds)"
proof -
  have "length (listing svc hst ds) < fuel"
    using length_listing [of svc hst ds] assms(2) by simp
  with listing_strict [OF assms(1), of svc hst] show ?thesis
    by (intro paginate_from [where pre = "[]"]) simp_all
qed

lemma listing_exactly_once:
  assumes "distinct (map fst (request_logs ds))"
  shows "distinct (listing svc hst ds) \<and> set (listing svc hst ds) = set (matching svc hst (request_logs ds))"
proof -
  from assms have "distinct (map fst (matching svc hst (request_logs ds)))"
    by (rule distinct_keys_matching)
  then have "distinct (matching svc hst (request_logs ds))" by (simp add: distinct_map)
  then show ?thesis by (simp add: listing_def)
qed

lemma key_name_order:
  assumes "in_window t1" and "in_window t2"
  shows "key_name svc hst t1 < key_name svc hst t2 \<longleftrightarrow> t2 < t1"
proof -
  have irr: "irrefl {(u, v::char). u < v}" by (simp add: irrefl_def)
  have "key_name svc hst t1 < key_name svc hst t2 \<longleftrightarrow> encode t1 < encode t2"
    unfolding key_name_def encode_def list_less_def
    by (simp only: append_assoc [symmetric] lexord_same_pref_if_irrefl [OF irr])
  also have "\<dots> \<longleftrightarrow> t2 < t1"
  proof
    assume l: "encode t1 < encode t2"
    show "t2 < t1"
    proof (rule ccontr)
      assume "\<not> t2 < t1"
      then consider "t1 < t2" | "t1 = t2" by linarith
      then show False
      proof cases
        case 1
        from encode_less [OF assms 1] l show False by simp
      next
        case 2
        with l show False by simp
      qed
    qed
  next
    assume "t2 < t1"
    from encode_less [OF assms(2,1) this] show "encode t1 < encode t2" .
  qed
  finally show ?thesis .
qed

lemma two_hosts_logs:
  "request_logs two_hosts =
     [(''sa17179868184000000'',
       \<lparr>service_name = ''s'', host = ''a'', app_logs = [\<lparr>message = ''old'', level = 1, timestamp = 1000\<rparr>]\<rparr>),
      (''sb17179867184000000'',
       \<lparr>service_name = ''s'', host = ''b'', app_logs = [\<lparr>message = ''new'', level = 1, timestamp = 2000\<rparr>]\<rparr>)]"
  by (simp add: two_hosts_def upload_eval str_eval)

text \<open>
  Stores whose records are keyed by their time: the upload handler keeps them so, and
  their single-host listings are newest first.
\<close>

lemma encode_inj:
  assumes "in_window t1" and "in_window t2" and "encode t1 = encode t2"
  shows "t1 = t2"
proof (rule ccontr)
  assume "t1 \<noteq> t2"
  then consider "t1 < t2" | "t2 < t1" by linarith
  then show False
  proof cases
    case 1
    from encode_less [OF assms(1,2) 1] assms(3) show False by simp
  next
    case 2
    from encode_less [OF assms(2,1) 2] assms(3) show False by simp
  qed
qed

lemma key_name_same_time:
  assumes "in_window t1" and "in_window t2" and "key_name s1 h1 t1 = key_name s2 h2 t2"
  shows "t1 = t2"
proof -
  have "length (encode t1) = length (encode t2)"
    using encode_length [OF assms(1)] encode_length [OF assms(2)] by simp
  moreover from assms(3) have "(s1 @ h1) @ encode t1 = (s2 @ h2) @ encode t2"
    by (simp add: key_name_def encode_def)
  ultimately have "encode t1 = encode t2"
    using append_eq_append_conv [of "s1 @ h1" "s2 @ h2" "encode t1" "encode t2"] by blast
  with assms(1,2) show ?thesis by (rule encode_inj)
qed

lemma list_all_update:
  "list_all P tbl \<Longrightarrow> P (k, v) \<Longrightarrow> list_all P (AList.update k v tbl)"
  by (induction tbl) auto

lemma keyed_new_record:
  "in_window t \<Longrightarrow>
   keyed_by_time (key_name svc hst t,
     \<lparr>service_name = svc, host = hst, app_logs = [\<lparr>message = m, level = lv, timestamp = t\<rparr>]\<rparr>)"
  by (simp add: keyed_by_time_def record_time_def)

lemma keyed_append:
  assumes "keyed_by_time (k, e)" and "in_window t" and "k = key_name svc hst t"
  shows "keyed_by_time (k, e\<lparr>app_logs := app_logs e @ [\<lparr>message = m, level = lv, timestamp = t\<rparr>]\<rparr>)"
proof -
  from assms(1) obtain t0 where t0: "record_time e = Some t0" "in_window t0"
    "k = key_name (service_name e) (host e) t0" "list_all (\<lambda>l. timestamp l = t0) (app_logs e)"
    by (auto simp: keyed_by_time_def split: option.splits)
  from t0(3) assms(3) have "key_name (service_name e) (host e) t0 = key_name svc hst t" by simp
  with t0(2) assms(2) have eq: "t0 = t" by (rule key_name_same_time)
  from t0(1) obtain l ls where ls: "app_logs e = l # ls" "timestamp l = t0"
    by (auto simp: record_time_def split: list.splits)
  then have "record_time (e\<lparr>app_logs := app_logs e @ [\<lparr>message = m, level = lv, timestamp = t\<rparr>]\<rparr>) = Some t0"
    by (simp add: record_time_def)
  with t0 eq show ?thesis by (simp add: keyed_by_time_def)
qed

lemma add_log_line_keyed:
  assumes "list_all keyed_by_time tbl" and "in_window (py_int (dict_timestamp d))"
    and "add_log_line svc hst d tbl = Inr tbl'"
  shows "list_all keyed_by_time tbl'"
proof -
  let ?t = "py_int (dict_timestamp d)"
  let ?k = "key_name svc hst ?t"
  show ?thesis
  proof (cases "map_of tbl ?k")
    case None
    with assms(3) have "tbl' = AList.update ?k
        \<lparr>service_name = svc, host = hst,
         app_logs = [\<lparr>message = dict_message d, level = dict_level d, timestamp = ?t\<rparr>]\<rparr> tbl"
      by (auto simp: add_log_line_def Let_def put_def datetime_fromtimestamp_def split: if_splits)
    with assms(1) keyed_new_record [OF assms(2)] show ?thesis by (simp add: list_all_update)
  next
    case (Some e)
    then have "(?k, e) \<in> set tbl" by (rule map_of_SomeD)
    with assms(1) have "keyed_by_time (?k, e)" by (simp add: list_all_iff)
    from keyed_append [OF this assms(2) refl]
    have k: "keyed_by_time (?k, e\<lparr>app_logs := app_logs e @
        [\<lparr>message = dict_message d, level = dict_level d, timestamp = ?t\<rparr>]\<rparr>)" .
    from Some assms(3) have "tbl' = AList.update ?k
        (e\<lparr>app_logs := app_logs e @
           [\<lparr>message = dict_message d, level = dict_level d, timestamp = ?t\<rparr>]\<rparr>) tbl"
      by (auto simp: add_log_line_def Let_def put_def datetime_fromtimestamp_def split: if_splits)
    with assms(1) k show ?thesis by (simp add: list_all_update)
  qed
qed

lemma add_log_lines_keyed:
  "list_all keyed_by_time tbl \<Longrightarrow> list_all (\<lambda>d. in_window (py_int (dict_timestamp d))) ds \<Longrightarrow>
   list_all keyed_by_time (snd (add_log_lines svc hst ds tbl))"
proof (induction ds arbitrary: tbl)
  case Nil
  then show ?case by simp
next
  case (Cons d ds)
  show ?case
  proof (cases "add_log_line svc hst d tbl")
    case (Inl err)
    with Cons.prems show ?thesis by simp
  next
    case (Inr tbl')
    from Cons.prems have "in_window (py_int (dict_timestamp d))" by simp
    from add_log_line_keyed [OF Cons.prems(1) this Inr] have "list_all keyed_by_time tbl'" .
    moreover from Cons.prems have "list_all (\<lambda>d. in_window (py_int (dict_timestamp d))) ds" by simp
    ultimately have "list_all keyed_by_time (snd (add_log_lines svc hst ds tbl'))" by (rule Cons.IH)
    with Inr show ?thesis by simp
  qed
qed

lemma post_keeps_keyed:
  assumes "list_all keyed_by_time (request_logs ds)"
    and "list_all (\<lambda>d. in_window (py_int (dict_timestamp d))) (upload_logs data)"
  shows "list_all keyed_by_time (request_logs (snd (LogUploadPage_post data ds)))"
  using add_log_lines_keyed [OF assms, of "upload_service_name data" "upload_host data"]
  by (auto simp: LogUploadPage_post_def Let_def split: prod.splits)

lemma listing_newest_first:
  assumes "distinct (map fst (request_logs ds))" and "list_all keyed_by_time (request_logs ds)"
    and "hst \<noteq> ''all''"
  shows "sorted_wrt newer (listing svc hst ds)"
proof -
  have s: "sorted_wrt (\<lambda>x y. fst x < fst y) (listing svc hst ds)"
    using listing_strict [OF assms(1), of svc hst] by (simp only: sorted_wrt_map)
  have m: "x \<in> set (listing svc hst ds) \<Longrightarrow>
           keyed_by_time x \<and> service_name (snd x) = svc \<and> host (snd x) = hst" for x
    using assms(2,3) by (auto simp: listing_def matching_def list_all_iff)
  have "newer x y" if "x \<in> set (listing svc hst ds)" "y \<in> set (listing svc hst ds)" "fst x < fst y" for x y
  proof -
    from m [OF that(1)] obtain t where t: "record_time (snd x) = Some t" "in_window t"
      "fst x = key_name svc hst t"
      by (auto simp: keyed_by_time_def split: option.splits)
    from m [OF that(2)] obtain u where u: "record_time (snd y) = Some u" "in_window u"
      "fst y = key_name svc hst u"
      by (auto simp: keyed_by_time_def split: option.splits)
    from that(3) t(3) u(3) have "key_name svc hst t < key_name svc hst u" by simp
    with key_name_order [OF t(2) u(2), of svc hst] have "u < t" by simp
    with t(1) u(1) show ?thesis by (simp add: newer_def)
  qed
  with s show ?thesis by (rule sorted_wrt_mono_rel [rotated])
qed

lemma update_absent: "k \<notin> fst ` set tbl \<Longrightarrow> AList.update k v tbl = tbl @ [(k, v)]"
  by (induction tbl) auto

lemma py_int_of_int: "py_int (of_int t) = t"
  by (simp add: py_int_def)

lemma upload_fresh:
  assumes "in_datetime_range t" and "key_name svc hst t \<notin> fst ` set (request_logs ds)"
  shows "request_logs (upload_one svc hst (LogLineDict (of_int t) m lv) ds) =
           request_logs ds @ [uploaded_record svc hst m lv t]"
proof -
  from assms(2) have "map_of (request_logs ds) (key_name svc hst t) = None"
    by (simp add: map_of_eq_None_iff)
  with assms show ?thesis
    by (simp add: upload_one_def LogUploadPage_post_def Let_def add_log_line_def put_def
        datetime_fromtimestamp_def py_int_of_int update_absent uploaded_record_def)
qed

lemma uploads_table:
  assumes "distinct ts" and "\<forall>t\<in>set ts. in_window t \<and> in_datetime_range t"
    and "\<forall>t\<in>set ts. key_name svc hst t \<notin> fst ` set (request_logs ds)"
  shows "request_logs (fold (\<lambda>t. upload_one svc hst (LogLineDict (of_int t) m lv)) ts ds) =
           request_logs ds @ map (uploaded_record svc hst m lv) ts"
  using assms
proof (induction ts arbitrary: ds)
  case Nil
  then show ?case by simp
next
  case (Cons t ts)
  let ?ds = "upload_one svc hst (LogLineDict (of_int t) m lv) ds"
  from Cons.prems have r: "request_logs ?ds = request_logs ds @ [uploaded_record svc hst m lv t]"
    by (simp add: upload_fresh)
  have "\<forall>u\<in>set ts. key_name svc hst u \<notin> fst ` set (request_logs ?ds)"
  proof
    fix u assume u: "u \<in> set ts"
    with Cons.prems have "u \<noteq> t" "in_window u" "in_window t" by auto
    then have "key_name svc hst u \<noteq> key_name svc hst t"
      using key_name_same_time [of u t svc hst svc hst] by blast
    with u Cons.prems(3) show "key_name svc hst u \<notin> fst ` set (request_logs ?ds)"
      by (simp add: r uploaded_record_def)
  qed
  with Cons.prems have "request_logs (fold (\<lambda>t. upload_one svc hst (LogLineDict (of_int t) m lv)) ts ?ds) =
           request_logs ?ds @ map (uploaded_record svc hst m lv) ts"
    by (intro Cons.IH) simp_all
  then show ?case by (simp add: r)
qed

lemma uploads_distinct:
  assumes "distinct ts" and "\<forall>t\<in>set ts. in_window t"
  shows "distinct (map fst (map (uploaded_record svc hst m lv) ts))"
proof -
  have "inj_on (key_name svc hst) (set ts)"
  proof (rule inj_onI)
    fix x y assume "x \<in> set ts" "y \<in> set ts" and k: "key_name svc hst x = key_name svc hst y"
    with assms(2) have "in_window x" "in_window y" by simp_all
    then show "x = y" using k by (rule key_name_same_time)
  qed
  moreover have "map fst (map (uploaded_record svc hst m lv) ts) = map (key_name svc hst) ts"
    by (simp add: uploaded_record_def comp_def)
  ultimately show ?thesis using assms(1) by (simp only: distinct_map simp_thms)
qed

lemma uploads_keyed:
  assumes "\<forall>t\<in>set ts. in_window t"
  shows "list_all keyed_by_time (map (uploaded_record svc hst m lv) ts)"
  unfolding list_all_iff
proof
  fix p assume "p \<in> set (map (uploaded_record svc hst m lv) ts)"
  from this [unfolded set_map] obtain t where t: "t \<in> set ts" and p: "p = uploaded_record svc hst m lv t"
    by (rule imageE)
  from assms t have "in_window t" by simp
  then show "keyed_by_time p" unfolding p uploaded_record_def by (rule keyed_new_record)
qed

lemma busy_times: "\<forall>t\<in>set [1000..1020]. in_window t \<and> in_datetime_range t"
proof
  fix t :: int assume "t \<in> set [1000..1020]"
  then have "1000 \<le> t \<and> t \<le> 1020" by (simp only: set_upto atLeastAtMost_iff)
  then show "in_window t \<and> in_datetime_range t"
    by (simp add: in_window_def in_datetime_range_def)
qed

lemma busy_host_logs:
  "request_logs busy_host = map (uploaded_record ''s'' ''a'' ''m'' 1) [1000..1020]"
proof -
  have "request_logs busy_host =
      request_logs empty_datastore @ map (uploaded_record ''s'' ''a'' ''m'' 1) [1000..1020]"
    unfolding busy_host_def
  proof (rule uploads_table)
    show "distinct [1000..1020 :: int]" by (rule distinct_upto)
    show "\<forall>t\<in>set [1000..1020]. in_window t \<and> in_datetime_range t" by (rule busy_times)
    show "\<forall>t\<in>set [1000..1020]. key_name ''s'' ''a'' t \<notin> fst ` set (request_logs empty_datastore)"
      by (simp only: empty_datastore_def datastore.simps list.set image_empty empty_iff not_False_eq_True ball_triv simp_thms)
  qed
  then show ?thesis by (simp only: empty_datastore_def datastore.simps append_Nil)
qed

lemma key_name_le:
  "in_window t1 \<Longrightarrow> in_window t2 \<Longrightarrow> key_name svc hst t1 \<le> key_name svc hst t2 \<longleftrightarrow> t2 \<le> t1"
  using key_name_order [of t2 t1 svc hst] by (auto simp: not_less [symmetric])

lemma upto_1000_1020:
  "[1000..1020] = [1000, 1001, 1002, 1003, 1004, 1005, 1006, 1007, 1008, 1009, 1010,
                   1011, 1012, 1013, 1014, 1015, 1016, 1017, 1018, 1019, 1020 :: int]"
  by (simp add: upto_rec_numeral)

lemma in_window_bounds: "in_window t \<longleftrightarrow> - 82820130816 < t \<and> t \<le> 7179869184"
  by (simp add: in_window_def)

lemmas busy_eval =
  busy_host_logs upto_1000_1020 uploaded_record_def key_name_le key_name_order in_window_bounds

lemma busy_listing:
  "listing ''s'' ''a'' busy_host =
     map (uploaded_record ''s'' ''a'' ''m'' 1)
       [1020, 1019, 1018, 1017, 1016, 1015, 1014, 1013, 1012, 1011, 1010,
        1009, 1008, 1007, 1006, 1005, 1004, 1003, 1002, 1001, 1000]"
  by (simp add: listing_def matching_def busy_eval)

lemma busy_cursor: "urlsafe (key_name ''s'' ''a'' 1001) = ''Csa17179868183000000''"
  by (simp add: urlsafe_def str_eval)

lemma busy_first_page:
  "(case LogServiceHostPage_get \<lparr>is_cloud_admin = True, apps_user_is_admin_on = [], next_cursor_param = []\<rparr>
           ''s'' ''a'' busy_host of
      Inl err \<Rightarrow> None
    | Inr page \<Rightarrow> Some (map (\<lambda>p. record_time (snd p)) (query page), next_cursor page, is_more page)) =
   Some ([Some 1020, Some 1019, Some 1018, Some 1017, Some 1016, Some 1015, Some 1014, Some 1013,
          Some 1012, Some 1011, Some 1010, Some 1009, Some 1008, Some 1007, Some 1006, Some 1005,
          Some 1004, Some 1003, Some 1002, Some 1001],
         Some (urlsafe (key_name ''s'' ''a'' 1001)), True)"
  by (simp add: LogServiceHostPage_get_def fetch_page_def LOGS_PER_PAGE_def busy_eval record_time_def)

lemma busy_second_page:
  "(case LogServiceHostPage_get
           \<lparr>is_cloud_admin = True, apps_user_is_admin_on = [],
            next_cursor_param = urlsafe (key_name ''s'' ''a'' 1001)\<rparr>
           ''s'' ''a'' busy_host of
      Inl err \<Rightarrow> None
    | Inr page \<Rightarrow> Some (map (\<lambda>p. record_time (snd p)) (query page), next_cursor page, is_more page)) =
   Some ([Some 1000], None, False)"
proof -
  have c: "urlsafe (key_name ''s'' ''a'' 1001) \<noteq> []" "urlsafe (key_name ''s'' ''a'' 1001) \<noteq> ''None''"
    "Cursor_urlsafe (urlsafe (key_name ''s'' ''a'' 1001)) = Inr (key_name ''s'' ''a'' 1001)"
    by (simp_all add: urlsafe_def)
  show ?thesis
    by (simp add: LogServiceHostPage_get_def fetch_page_def LOGS_PER_PAGE_def c busy_eval record_time_def)
qed

lemma busy_distinct: "distinct (map fst (request_logs busy_host))"
  unfolding busy_host_logs using busy_times by (intro uploads_distinct distinct_upto) blast

lemma busy_keyed: "list_all keyed_by_time (request_logs busy_host)"
  unfolding busy_host_logs using busy_times by (intro uploads_keyed) blast

lemma busy_length: "length (request_logs busy_host) < 22"
  by (simp only: busy_host_logs length_map length_upto)

text \<open>
  Claim C3, as amended. Starting with no cursor and feeding each returned cursor into the
  next request, the viewer stops at the page whose \<^verbatim>\<open>is_more\<close> is false, after at most
  as many requests as the store has records and one more, and the pages together are the
  listing of the filter: every stored record that matches the (service, host) filter
  exactly once, in ascending order of the key names. For a single host, in a store whose
  records are keyed by their time, that is the descending order of the timestamps; such
  a store stays so under every upload whose timestamps are of the window. With host
  \<open>all\<close> the key order puts the host before the time.
\<close>

theorem pagination_lists_matching_records:
  assumes "distinct (map fst (request_logs ds))" and "length (request_logs ds) < fuel"
  shows "paginate fuel (req\<lparr>next_cursor_param := []\<rparr>) svc hst ds = Some (listing svc hst ds) \<and>
         distinct (listing svc hst ds) \<and>
         set (listing svc hst ds) = set (matching svc hst (request_logs ds)) \<and>
         sorted_wrt (\<lambda>x y. fst x < fst y) (listing svc hst ds) \<and>
         (hst \<noteq> ''all'' \<and> list_all keyed_by_time (request_logs ds) \<longrightarrow>
            sorted_wrt newer (listing svc hst ds)) \<and>
         (list_all keyed_by_time (request_logs ds) \<and>
          list_all (\<lambda>d. in_window (py_int (dict_timestamp d))) (upload_logs data) \<longrightarrow>
            list_all keyed_by_time (request_logs (snd (LogUploadPage_post data ds))))"
proof -
  have "sorted_wrt (\<lambda>x y. fst x < fst y) (listing svc hst ds)"
    using listing_strict [OF assms(1), of svc hst] by (simp only: sorted_wrt_map)
  with paginate_all [OF assms, of req svc hst] listing_exactly_once [OF assms(1), of svc hst]
    listing_newest_first [OF assms(1), of hst svc] post_keeps_keyed [of ds data]
  show ?thesis by blast
qed

theorem pagination_lists_matching_records_witness:
  "distinct (map fst (request_logs busy_host)) \<and> length (request_logs busy_host) < 22 \<and>
   ''a'' \<noteq> ''all'' \<and> list_all keyed_by_time (request_logs busy_host) \<and>
   list_all (\<lambda>d. in_window (py_int (dict_timestamp d)))
     (upload_logs \<lparr>upload_service_name = ''s'', upload_host = ''a'',
                   upload_logs = [LogLineDict 1021 ''m'' 1]\<rparr>) \<and>
   paginate 22 (\<lparr>is_cloud_admin = True, apps_user_is_admin_on = [], next_cursor_param = ''x''\<rparr>
                  \<lparr>next_cursor_param := []\<rparr>) ''s'' ''a'' busy_host =
     Some (listing ''s'' ''a'' busy_host) \<and>
   sorted_wrt newer (listing ''s'' ''a'' busy_host) \<and>
   list_all keyed_by_time
     (request_logs (snd (LogUploadPage_post
        \<lparr>upload_service_name = ''s'', upload_host = ''a'', upload_logs = [LogLineDict 1021 ''m'' 1]\<rparr>
        busy_host))) \<and>
   map (\<lambda>p. record_time (snd p)) (listing ''s'' ''a'' busy_host) =
     [Some 1020, Some 1019, Some 1018, Some 1017, Some 1016, Some 1015, Some 1014, Some 1013,
      Some 1012, Some 1011, Some 1010, Some 1009, Some 1008, Some 1007, Some 1006, Some 1005,
      Some 1004, Some 1003, Some 1002, Some 1001, Some 1000] \<and>
   (case LogServiceHostPage_get
           \<lparr>is_cloud_admin = True, apps_user_is_admin_on = [], next_cursor_param = []\<rparr>
           ''s'' ''a'' busy_host of
      Inl err \<Rightarrow> None
    | Inr page \<Rightarrow> Some (map (\<lambda>p. record_time (snd p)) (query page), next_cursor page, is_more page)) =
     Some ([Some 1020, Some 1019, Some 1018, Some 1017, Some 1016, Some 1015, Some 1014, Some 1013,
            Some 1012, Some 1011, Some 1010, Some 1009, Some 1008, Some 1007, Some 1006, Some 1005,
            Some 1004, Some 1003, Some 1002, Some 1001],
           Some (urlsafe (key_name ''s'' ''a'' 1001)), True) \<and>
   urlsafe (key_name ''s'' ''a'' 1001) = ''Csa17179868183000000'' \<and>
   (case LogServiceHostPage_get
           \<lparr>is_cloud_admin = True, apps_user_is_admin_on = [],
            next_cursor_param = urlsafe (key_name ''s'' ''a'' 1001)\<rparr>
           ''s'' ''a'' busy_host of
      Inl err \<Rightarrow> None
    | Inr page \<Rightarrow> Some (map (\<lambda>p. record_time (snd p)) (query page), next_cursor page, is_more page)) =
     Some ([Some 1000], None, False)"
proof -
  let ?data = "\<lparr>upload_service_name = ''s'', upload_host = ''a'',
                 upload_logs = [LogLineDict 1021 ''m'' 1]\<rparr>"
  let ?req = "\<lparr>is_cloud_admin = True, apps_user_is_admin_on = [], next_cursor_param = ''x''\<rparr>"
  have h: "''a'' \<noteq> ''all''" by simp
  have w: "list_all (\<lambda>d. in_window (py_int (dict_timestamp d))) (upload_logs ?data)"
    by (simp add: py_int_def in_window_bounds)
  note t = pagination_lists_matching_records [OF busy_distinct busy_length, of ?req "''s''" "''a''" ?data]
  from t have p: "paginate 22 (?req\<lparr>next_cursor_param := []\<rparr>) ''s'' ''a'' busy_host =
     Some (listing ''s'' ''a'' busy_host)"
    by (rule conjunct1)
  from t h busy_keyed have n: "sorted_wrt newer (listing ''s'' ''a'' busy_host)" by blast
  from t w busy_keyed have k: "list_all keyed_by_time
     (request_logs (snd (LogUploadPage_post ?data busy_host)))" by blast
  have l: "map (\<lambda>p. record_time (snd p)) (listing ''s'' ''a'' busy_host) =
     [Some 1020, Some 1019, Some 1018, Some 1017, Some 1016, Some 1015, Some 1014, Some 1013,
      Some 1012, Some 1011, Some 1010, Some 1009, Some 1008, Some 1007, Some 1006, Some 1005,
      Some 1004, Some 1003, Some 1002, Some 1001, Some 1000]"
    by (simp add: busy_listing uploaded_record_def record_time_def)
  from busy_distinct busy_length h busy_keyed w p n k l busy_first_page busy_cursor busy_second_page
  show ?thesis by (intro conjI)
qed

text \<open>
  Claim C3 as stated fails: for service \<open>s\<close> and host \<open>all\<close> the pages of the store
  \<^const>\<open>two_hosts\<close> list the record of second 1000 (host \<open>a\<close>) before the record of second
  2000 (host \<open>b\<close>), which is not the descending order of the timestamps.
\<close>

theorem pagination_order_counterexample:
  "paginate 3 \<lparr>is_cloud_admin = True, apps_user_is_admin_on = [], next_cursor_param = []\<rparr>
     ''s'' ''all'' two_hosts =
     Some [(''sa17179868184000000'',
            \<lparr>service_name = ''s'', host = ''a'',
             app_logs = [\<lparr>message = ''old'', level = 1, timestamp = 1000\<rparr>]\<rparr>),
           (''sb17179867184000000'',
            \<lparr>service_name = ''s'', host = ''b'',
             app_logs = [\<lparr>message = ''new'', level = 1, timestamp = 2000\<rparr>]\<rparr>)]"
  by (simp add: numeral_3_eq_3 LogServiceHostPage_get_def fetch_page_def two_hosts_logs
      LOGS_PER_PAGE_def less_char_def)

end
